theory Spec2Isabelle
  imports Complex_Main
begin

section \<open>Vectors, rounding and quaternions\<close>

text \<open>
  The engine computes with JavaScript numbers. World positions are modelled as triples of
  reals and cell offsets as triples of integers (the catalog lists integers and every
  rotation rounds). The three.js vector and quaternion operations the engine calls are
  library functions; they are written out here with the formulas of the library, in exact
  real arithmetic. The rotation of a cell offset, which the code rounds to integers, is
  written out in double precision as well.
\<close>

type_synonym vec3 = "real \<times> real \<times> real"
type_synonym cell = "int \<times> int \<times> int"
type_synonym quat = "real \<times> real \<times> real \<times> real"

text \<open>\<^verbatim>\<open>Math.round\<close>: the nearest integer, a tie going up.\<close>

definition js_round :: "real \<Rightarrow> int" where
  "js_round x = \<lfloor>x + 1 / 2\<rfloor>"

definition vadd :: "vec3 \<Rightarrow> vec3 \<Rightarrow> vec3" where
  "vadd a b = (case a of (ax, ay, az) \<Rightarrow> case b of (bx, by, bz) \<Rightarrow> (ax + bx, ay + by, az + bz))"

definition vsub :: "vec3 \<Rightarrow> vec3 \<Rightarrow> vec3" where
  "vsub a b = (case a of (ax, ay, az) \<Rightarrow> case b of (bx, by, bz) \<Rightarrow> (ax - bx, ay - by, az - bz))"

definition multiplyScalar :: "vec3 \<Rightarrow> real \<Rightarrow> vec3" where
  "multiplyScalar a k = (case a of (ax, ay, az) \<Rightarrow> (ax * k, ay * k, az * k))"

definition vdot :: "vec3 \<Rightarrow> vec3 \<Rightarrow> real" where
  "vdot a b = (case a of (ax, ay, az) \<Rightarrow> case b of (bx, by, bz) \<Rightarrow> ax * bx + ay * by + az * bz)"

definition crossVectors :: "vec3 \<Rightarrow> vec3 \<Rightarrow> vec3" where
  "crossVectors a b = (case a of (ax, ay, az) \<Rightarrow> case b of (bx, by, bz) \<Rightarrow>
     (ay * bz - az * by, az * bx - ax * bz, ax * by - ay * bx))"

definition vlength :: "vec3 \<Rightarrow> real" where
  "vlength a = (case a of (ax, ay, az) \<Rightarrow> sqrt (ax * ax + ay * ay + az * az))"

text \<open>\<^verbatim>\<open>Vector3.normalize\<close> divides by \<^verbatim>\<open>length() || 1\<close>.\<close>

definition normalizeVec :: "vec3 \<Rightarrow> vec3" where
  "normalizeVec a = (let l = vlength a; d = (if l = 0 then 1 else l)
     in case a of (ax, ay, az) \<Rightarrow> (ax / d, ay / d, az / d))"

definition vround :: "vec3 \<Rightarrow> cell" where
  "vround a = (case a of (ax, ay, az) \<Rightarrow> (js_round ax, js_round ay, js_round az))"

definition vec_of_cell :: "cell \<Rightarrow> vec3" where
  "vec_of_cell c = (case c of (cx, cy, cz) \<Rightarrow> (of_int cx, of_int cy, of_int cz))"

text \<open>\<^verbatim>\<open>Quaternion.setFromAxisAngle\<close>; the components are \<open>(x, y, z, w)\<close>.\<close>

definition setFromAxisAngle :: "vec3 \<Rightarrow> real \<Rightarrow> quat" where
  "setFromAxisAngle axis angle = (let halfAngle = angle / 2; s = sin halfAngle
     in case axis of (ax, ay, az) \<Rightarrow> (ax * s, ay * s, az * s, cos halfAngle))"

text \<open>\<^verbatim>\<open>Vector3.applyQuaternion\<close>: \<open>v + w t + q \<times> t\<close> with \<open>t = 2 (q \<times> v)\<close>.\<close>

definition applyQuaternion :: "quat \<Rightarrow> vec3 \<Rightarrow> vec3" where
  "applyQuaternion q v = (case q of (qx, qy, qz, qw) \<Rightarrow> case v of (vx, vy, vz) \<Rightarrow>
     (let tx = 2 * (qy * vz - qz * vy);
          ty = 2 * (qz * vx - qx * vz);
          tz = 2 * (qx * vy - qy * vx)
      in (vx + qw * tx + qy * tz - qz * ty,
          vy + qw * ty + qz * tx - qx * tz,
          vz + qw * tz + qx * ty - qy * tx)))"

text \<open>The quaternion of every discrete rotation: a quarter turn about the given axis.\<close>

definition quarterTurn :: "vec3 \<Rightarrow> quat" where
  "quarterTurn axis = setFromAxisAngle axis (pi / 2)"

text \<open>One cell offset of \<^verbatim>\<open>rotateBlock\<close>: rotate, then round each coordinate.\<close>

definition rotateCell :: "quat \<Rightarrow> cell \<Rightarrow> cell" where
  "rotateCell q c = vround (applyQuaternion q (vec_of_cell c))"

text \<open>
  The rotation of a cell offset as the code computes it, in double precision. Every
  arithmetic operation and \<^verbatim>\<open>Math.sqrt\<close> return the rounding \<open>rnd\<close> of the exact result;
  \<open>sinHalf\<close> and \<open>cosHalf\<close> are the numbers \<^verbatim>\<open>Math.sin\<close> and \<^verbatim>\<open>Math.cos\<close> return for the half
  angle \<^verbatim>\<open>Math.PI / 2 / 2\<close>. A negative zero is not distinguished from zero.
\<close>

record floatArith =
  rnd :: "real \<Rightarrow> real"
  sinHalf :: real
  cosHalf :: real

definition vlengthFl :: "floatArith \<Rightarrow> vec3 \<Rightarrow> real" where
  "vlengthFl F a = (case a of (ax, ay, az) \<Rightarrow>
     rnd F (sqrt (rnd F (rnd F (rnd F (ax * ax) + rnd F (ay * ay)) + rnd F (az * az)))))"

text \<open>\<^verbatim>\<open>Vector3.normalize\<close> multiplies by \<^verbatim>\<open>1 / (length() || 1)\<close>.\<close>

definition normalizeFl :: "floatArith \<Rightarrow> vec3 \<Rightarrow> vec3" where
  "normalizeFl F a = (let l = vlengthFl F a; d = (if l = 0 then 1 else l); k = rnd F (1 / d)
     in case a of (ax, ay, az) \<Rightarrow> (rnd F (ax * k), rnd F (ay * k), rnd F (az * k)))"

definition quarterTurnFl :: "floatArith \<Rightarrow> vec3 \<Rightarrow> quat" where
  "quarterTurnFl F axis = (case axis of (ax, ay, az) \<Rightarrow>
     (rnd F (ax * sinHalf F), rnd F (ay * sinHalf F), rnd F (az * sinHalf F), cosHalf F))"

definition applyQuaternionFl :: "floatArith \<Rightarrow> quat \<Rightarrow> vec3 \<Rightarrow> vec3" where
  "applyQuaternionFl F q v = (case q of (qx, qy, qz, qw) \<Rightarrow> case v of (vx, vy, vz) \<Rightarrow>
     (let tx = rnd F (2 * rnd F (rnd F (qy * vz) - rnd F (qz * vy)));
          ty = rnd F (2 * rnd F (rnd F (qz * vx) - rnd F (qx * vz)));
          tz = rnd F (2 * rnd F (rnd F (qx * vy) - rnd F (qy * vx)))
      in (rnd F (rnd F (rnd F (vx + rnd F (qw * tx)) + rnd F (qy * tz)) - rnd F (qz * ty)),
          rnd F (rnd F (rnd F (vy + rnd F (qw * ty)) + rnd F (qz * tx)) - rnd F (qx * tz)),
          rnd F (rnd F (rnd F (vz + rnd F (qw * tz)) + rnd F (qx * ty)) - rnd F (qy * tx)))))"

definition rotateCellFl :: "floatArith \<Rightarrow> vec3 \<Rightarrow> cell \<Rightarrow> cell" where
  "rotateCellFl F axis c =
     vround (applyQuaternionFl F (quarterTurnFl F (normalizeFl F axis)) (vec_of_cell c))"

section \<open>Blocks\<close>

text \<open>
  \<^verbatim>\<open>BlockObject\<close>. The meshes are not modelled; of the pivot wrapper used during an
  orientation animation only its presence is kept (\<open>animPivotGroup\<close>).
\<close>

record block =
  blockId :: int
  cells :: "cell list"
  position :: vec3
  selected :: bool
  isAnimating :: bool
  animStartTime :: real
  animTargetQuat :: quat
  animPivotGroup :: bool
  pendingCells :: "cell list option"
  posAnimating :: bool
  posAnimStartPos :: "vec3 option"
  posAnimTargetPos :: "vec3 option"
  posAnimPivot :: "vec3 option"
  posAnimAxis :: "vec3 option"
  posAnimStartTime :: real

text \<open>A catalog entry (\<^verbatim>\<open>BlockDefinition\<close>, the colour left out) and the constructor.\<close>

type_synonym blockDefinition = "int \<times> cell list"

definition BLOCK_DEFINITIONS :: "blockDefinition list" where
  "BLOCK_DEFINITIONS =
    [(0, [(0, 0, 0), (-1, 0, 0), (0, 0, 1)]),
     (1, [(0, 0, 0), (-1, 0, 0), (0, 0, 1), (1, 0, 1)]),
     (2, [(0, 0, 0), (-1, 0, 0), (1, 0, 0), (1, 0, 1)]),
     (3, [(0, 0, 0), (-1, 0, 0), (1, 0, 0), (0, 0, 1)]),
     (4, [(0, 0, 0), (-1, 0, 0), (0, 0, 1), (0, 1, 0)]),
     (5, [(0, 0, 0), (-1, 0, 0), (0, 0, 1), (-1, 1, 0)]),
     (6, [(0, 0, 0), (-1, 0, 0), (0, 0, 1), (0, 1, 1)])]"

definition newBlock :: "blockDefinition \<Rightarrow> block" where
  "newBlock d = \<lparr> blockId = fst d, cells = snd d, position = (0, 0, 0), selected = False,
     isAnimating = False, animStartTime = 0, animTargetQuat = (0, 0, 0, 1),
     animPivotGroup = False, pendingCells = None,
     posAnimating = False, posAnimStartPos = None, posAnimTargetPos = None,
     posAnimPivot = None, posAnimAxis = None, posAnimStartTime = 0 \<rparr>"

definition setSelected :: "bool \<Rightarrow> block \<Rightarrow> block" where
  "setSelected v b = b\<lparr>selected := v\<rparr>"

definition snapToGrid :: "block \<Rightarrow> block" where
  "snapToGrid b = (case position b of (x, y, z) \<Rightarrow>
     b\<lparr>position := (of_int (js_round x), of_int (max 0 (js_round y)), of_int (js_round z))\<rparr>)"

definition animating :: "block \<Rightarrow> bool" where
  "animating b = (isAnimating b \<or> posAnimating b)"

definition getWorldCellPositions :: "block \<Rightarrow> cell list" where
  "getWorldCellPositions b = (case position b of (x, y, z) \<Rightarrow>
     map (\<lambda>c. case c of (cx, cy, cz) \<Rightarrow>
       (js_round (x + of_int cx), js_round (y + of_int cy), js_round (z + of_int cz))) (cells b))"

text \<open>\<open>now\<close> is the value \<^verbatim>\<open>performance.now()\<close> returns at the call.\<close>

definition animatePositionTo :: "vec3 \<Rightarrow> vec3 option \<Rightarrow> vec3 option \<Rightarrow> real \<Rightarrow> block \<Rightarrow> block" where
  "animatePositionTo target pivot axis now b =
     b\<lparr>posAnimStartPos := Some (position b),
       posAnimTargetPos := Some target,
       posAnimPivot := pivot,
       posAnimAxis := map_option normalizeVec axis,
       posAnimStartTime := now,
       posAnimating := True\<rparr>"

definition rotateBlock :: "vec3 \<Rightarrow> real \<Rightarrow> block \<Rightarrow> block" where
  "rotateBlock axis now b =
     (if isAnimating b then b
      else let q = quarterTurn (normalizeVec axis)
        in b\<lparr>pendingCells := Some (map (rotateCell q) (cells b)),
             animPivotGroup := True,
             animTargetQuat := q,
             animStartTime := now,
             isAnimating := True\<rparr>)"

definition ROTATION_DURATION :: real where
  "ROTATION_DURATION = 200"

definition ease :: "real \<Rightarrow> real" where
  "ease t = (if t < 1 / 2 then 2 * t * t else 1 - (- 2 * t + 2) ^ 2 / 2)"

definition lerpVectors :: "vec3 \<Rightarrow> vec3 \<Rightarrow> real \<Rightarrow> vec3" where
  "lerpVectors a b k = vadd a (multiplyScalar (vsub b a) k)"

text \<open>The position half of \<^verbatim>\<open>updateAnimation\<close>.\<close>

definition updatePosAnimation :: "real \<Rightarrow> block \<Rightarrow> block" where
  "updatePosAnimation now b =
     (case (posAnimating b, posAnimStartPos b, posAnimTargetPos b) of
        (True, Some startPos, Some targetPos) \<Rightarrow>
          (let elapsed = now - posAnimStartTime b;
               t = min (elapsed / ROTATION_DURATION) 1;
               e = ease t;
               b1 = (case (posAnimPivot b, posAnimAxis b) of
                       (Some pivot, Some axis) \<Rightarrow>
                         b\<lparr>position := vadd pivot
                             (applyQuaternion (setFromAxisAngle axis (e * (pi / 2))) (vsub startPos pivot))\<rparr>
                     | _ \<Rightarrow> b\<lparr>position := lerpVectors startPos targetPos e\<rparr>)
           in if t \<ge> 1
              then b1\<lparr>position := targetPos, posAnimating := False, posAnimStartPos := None,
                      posAnimTargetPos := None, posAnimPivot := None, posAnimAxis := None\<rparr>
              else b1)
      | _ \<Rightarrow> b)"

text \<open>The orientation half: on completion the pending cell list becomes the shape.\<close>

definition updateRotAnimation :: "real \<Rightarrow> block \<Rightarrow> block" where
  "updateRotAnimation now b =
     (if \<not> isAnimating b \<or> \<not> animPivotGroup b then b
      else let elapsed = now - animStartTime b;
               t = min (elapsed / ROTATION_DURATION) 1
        in if t \<ge> 1
           then (let b1 = b\<lparr>isAnimating := False, animPivotGroup := False\<rparr>
                 in case pendingCells b1 of
                      Some p \<Rightarrow> b1\<lparr>cells := p, pendingCells := None\<rparr>
                    | None \<Rightarrow> b1)
           else b)"

definition updateAnimation :: "real \<Rightarrow> block \<Rightarrow> block" where
  "updateAnimation now b = updateRotAnimation now (updatePosAnimation now b)"

text \<open>\<^verbatim>\<open>adjustToFloor\<close>; \<open>None\<close> stands for the initial \<^verbatim>\<open>Infinity\<close>.\<close>

definition lowerMin :: "real \<Rightarrow> real option \<Rightarrow> real option" where
  "lowerMin y m = (case m of None \<Rightarrow> Some y | Some v \<Rightarrow> if y < v then Some y else Some v)"

definition adjustToFloor :: "block \<Rightarrow> block" where
  "adjustToFloor b = (case position b of (x, y, z) \<Rightarrow>
     (let minY = fold (\<lambda>c m. case c of (cx, cy, cz) \<Rightarrow> lowerMin (y + of_int cy) m) (cells b) None
      in snapToGrid (case minY of
           Some m \<Rightarrow> if m < 0 then b\<lparr>position := (x, y - m, z)\<rparr> else b
         | None \<Rightarrow> b)))"

text \<open>
  \<^verbatim>\<open>getCenterCellWorldPos\<close> reads \<^verbatim>\<open>cells[0]\<close>; on an empty cell list the read
  of \<^verbatim>\<open>cell[0]\<close> throws, which is \<open>None\<close> here.
\<close>

definition getCenterCellWorldPos :: "block \<Rightarrow> vec3 option" where
  "getCenterCellWorldPos b = (case cells b of
       [] \<Rightarrow> None
     | c # _ \<Rightarrow> (case c of (cx, cy, cz) \<Rightarrow>
         Some (vadd (of_int cx, of_int cy + 1 / 2, of_int cz) (position b))))"

section \<open>Adjacency, connectivity and collisions\<close>

text \<open>
  The engine holds its blocks in an array and refers to them by object identity; here a
  block reference is the position of the block in that list.
\<close>

definition cellsTouch :: "cell \<Rightarrow> cell \<Rightarrow> bool" where
  "cellsTouch ca cb = (case ca of (ax, ay, az) \<Rightarrow> case cb of (bx, by, bz) \<Rightarrow>
     \<bar>ax - bx\<bar> + \<bar>ay - by\<bar> + \<bar>az - bz\<bar> = 1)"

definition areAdjacent :: "block \<Rightarrow> block \<Rightarrow> bool" where
  "areAdjacent a b =
     list_ex (\<lambda>ca. list_ex (\<lambda>cb. cellsTouch ca cb) (getWorldCellPositions b)) (getWorldCellPositions a)"

text \<open>
  The inner loop of \<^verbatim>\<open>findConnectedBlocks\<close> over all blocks, for one dequeued block;
  \<open>visited\<close> is the set in insertion order.
\<close>

fun scanBlocks :: "block list \<Rightarrow> nat \<Rightarrow> nat list \<Rightarrow> nat list \<times> nat list \<Rightarrow> nat list \<times> nat list" where
  "scanBlocks bs current [] vq = vq"
| "scanBlocks bs current (other # rest) vq =
     (case vq of (visited, queue) \<Rightarrow>
        if other \<in> set visited then scanBlocks bs current rest (visited, queue)
        else if areAdjacent (bs ! current) (bs ! other)
          then scanBlocks bs current rest (visited @ [other], queue @ [other])
          else scanBlocks bs current rest (visited, queue))"

function bfsLoop :: "block list \<Rightarrow> nat list \<Rightarrow> nat list \<Rightarrow> nat list" where
  "bfsLoop bs visited [] = visited"
| "bfsLoop bs visited (current # queue) =
     (case scanBlocks bs current [0..<length bs] (visited, queue) of
        (visited', queue') \<Rightarrow> bfsLoop bs visited' queue')"
  by pat_completeness auto
termination
proof (relation "measure (\<lambda>(bs, visited, queue).
          2 * card ({0..<length bs} - set visited) + length queue)")
  show "wf (measure (\<lambda>(bs, visited, queue).
          2 * card ({0..<length bs} - set visited) + length queue))"
    by simp
next
  fix bs :: "block list" and visited :: "nat list" and current :: nat
    and queue x y :: "nat list"
  assume scan: "(x, y) = scanBlocks bs current [0..<length bs] (visited, queue)"
  have step: "2 * card ({0..<length bs} - set v') + length q'
                \<le> 2 * card ({0..<length bs} - set v) + length q"
    if "scanBlocks bs current os (v, q) = (v', q')" and "set os \<subseteq> {0..<length bs}"
    for os v q v' q'
    using that
  proof (induction os arbitrary: v q)
    case Nil
    then show ?case by simp
  next
    case (Cons other rest)
    show ?case
    proof (cases "other \<notin> set v \<and> areAdjacent (bs ! current) (bs ! other)")
      case False
      with Cons.prems have "scanBlocks bs current rest (v, q) = (v', q')"
        by (auto split: if_splits)
      with Cons.IH Cons.prems(2) show ?thesis by simp
    next
      case True
      with Cons.prems have "scanBlocks bs current rest (v @ [other], q @ [other]) = (v', q')"
        by simp
      with Cons.IH Cons.prems(2)
      have le: "2 * card ({0..<length bs} - set (v @ [other])) + length (q @ [other])
                  \<le> 2 * card ({0..<length bs} - set v) + length q
                \<Longrightarrow> ?thesis"
        by (meson order_trans list.set_intros(2) subset_code(1))
      have mem: "other \<in> {0..<length bs} - set v"
        using True Cons.prems(2) by simp
      have "{0..<length bs} - set (v @ [other]) = ({0..<length bs} - set v) - {other}"
        by auto
      then have "card ({0..<length bs} - set (v @ [other])) = card ({0..<length bs} - set v) - 1"
        using mem by simp
      moreover have "card ({0..<length bs} - set v) > 0"
        using mem by (metis card_gt_0_iff empty_iff finite_Diff finite_atLeastLessThan)
      ultimately show ?thesis
        using le by simp
    qed
  qed
  from step [OF scan [symmetric]]
  show "((bs, x, y), (bs, visited, current # queue))
          \<in> measure (\<lambda>(bs, visited, queue).
              2 * card ({0..<length bs} - set visited) + length queue)"
    by simp
qed

definition findConnectedBlocks :: "block list \<Rightarrow> nat \<Rightarrow> nat list" where
  "findConnectedBlocks bs seed = bfsLoop bs [seed] [seed]"

text \<open>
  \<^verbatim>\<open>detectCollisions\<close>. The map from cell key to occupant ids is an association list
  in insertion order; the key is the cell itself, which the string
  \<^verbatim>\<open>`${x},${y},${z}`\<close> of the source determines and is determined by.
\<close>

fun cellMapPush :: "cell \<Rightarrow> int \<Rightarrow> (cell \<times> int list) list \<Rightarrow> (cell \<times> int list) list" where
  "cellMapPush key i [] = [(key, [i])]"
| "cellMapPush key i (e # m) =
     (if fst e = key then (fst e, snd e @ [i]) # m else e # cellMapPush key i m)"

definition buildCellMap :: "block list \<Rightarrow> (cell \<times> int list) list" where
  "buildCellMap bs = fold (\<lambda>b m. fold (\<lambda>c m'. cellMapPush c (blockId b) m') (getWorldCellPositions b) m) bs []"

definition detectCollisions :: "block list \<Rightarrow> int set" where
  "detectCollisions bs =
     fold (\<lambda>e colliding. if length (snd e) > 1 then fold insert (snd e) colliding else colliding)
       (buildCellMap bs) {}"

section \<open>The interaction engine\<close>

text \<open>
  \<^verbatim>\<open>InteractionManager\<close>. The camera, the raycaster and the scene graph are outside
  the engine: what a handler obtains from them (which ring or block the pointer ray hits,
  where the ray meets a plane, the time) comes with the event. Of the drag plane and of the
  gizmo plane only their presence is kept. The change callbacks are outputs and are left
  out.
\<close>

record state =
  blocks :: "block list"
  selectedGroup :: "nat list"
  centerBlock :: "nat option"
  mouseDownPos :: "real \<times> real"
  pendingBlock :: "nat option"
  hasMovedPastThreshold :: bool
  isDragging :: bool
  dragTarget :: "nat option"
  dragPlane :: bool
  dragOffset :: vec3
  dragTargetStartPos :: vec3
  groupDragStartPositions :: "nat \<rightharpoonup> vec3"
  isGroupDrag :: bool
  gizmoVisible :: bool
  gizmoPosition :: vec3
  isGizmoDragging :: bool
  gizmoDragAxis :: "vec3 option"
  gizmoDragPlane :: bool
  gizmoDragStartAngle :: real
  gizmoAccumulatedAngle :: real

definition mouseMoveThreshold :: real where
  "mouseMoveThreshold = 3"

text \<open>The engine right after construction, holding the given blocks.\<close>

definition newInteractionManager :: "block list \<Rightarrow> state" where
  "newInteractionManager bs = \<lparr> blocks = bs, selectedGroup = [], centerBlock = None,
     mouseDownPos = (0, 0), pendingBlock = None, hasMovedPastThreshold = False,
     isDragging = False, dragTarget = None, dragPlane = False, dragOffset = (0, 0, 0),
     dragTargetStartPos = (0, 0, 0), groupDragStartPositions = Map.empty, isGroupDrag = False,
     gizmoVisible = False, gizmoPosition = (0, 0, 0), isGizmoDragging = False,
     gizmoDragAxis = None, gizmoDragPlane = False, gizmoDragStartAngle = 0,
     gizmoAccumulatedAngle = 0 \<rparr>"

text \<open>
  What \<^verbatim>\<open>GameScene.vue\<close> does on mounting: one block per catalog entry, placed at its
  start position and snapped.
\<close>

definition startPositions :: "vec3 list" where
  "startPositions = [(0, 0, 0), (3, 0, 0), (-3, 0, 0), (0, 0, 3), (0, 0, -3), (3, 0, 3), (-3, 0, -3)]"

definition placedBlock :: "blockDefinition \<Rightarrow> vec3 \<Rightarrow> block" where
  "placedBlock d p = snapToGrid ((newBlock d)\<lparr>position := p\<rparr>)"

definition initialState :: state where
  "initialState = newInteractionManager (map2 placedBlock BLOCK_DEFINITIONS startPositions)"

text \<open>A method call on the block at a position of the list.\<close>

definition modify :: "nat \<Rightarrow> (block \<Rightarrow> block) \<Rightarrow> block list \<Rightarrow> block list" where
  "modify i f bs = bs[i := f (bs ! i)]"

definition setGroupSelected :: "bool \<Rightarrow> nat list \<Rightarrow> block list \<Rightarrow> block list" where
  "setGroupSelected v members bs = fold (\<lambda>i. modify i (setSelected v)) members bs"

definition gizmoShow :: "vec3 \<Rightarrow> state \<Rightarrow> state" where
  "gizmoShow p s = s\<lparr>gizmoPosition := p, gizmoVisible := True\<rparr>"

definition gizmoHide :: "state \<Rightarrow> state" where
  "gizmoHide s = s\<lparr>gizmoVisible := False\<rparr>"

text \<open>
  A handler that reads the first cell of a block without cells throws and is left at that
  point, the state as far as it was changed.
\<close>

datatype outcome = Returned state | Threw state

fun andThen :: "outcome \<Rightarrow> (state \<Rightarrow> state) \<Rightarrow> state" where
  "andThen (Returned s) k = k s"
| "andThen (Threw s) k = s"

definition showGizmoAt :: "nat \<Rightarrow> state \<Rightarrow> outcome" where
  "showGizmoAt center s = (case getCenterCellWorldPos (blocks s ! center) of
       None \<Rightarrow> Threw s
     | Some p \<Rightarrow> Returned (gizmoShow p s))"

definition selectGroupWithCenter :: "nat list \<Rightarrow> nat \<Rightarrow> state \<Rightarrow> outcome" where
  "selectGroupWithCenter members center s =
     (let s1 = s\<lparr>blocks := setGroupSelected False (selectedGroup s) (blocks s)\<rparr>;
          s2 = s1\<lparr>selectedGroup := members, centerBlock := Some center\<rparr>;
          s3 = s2\<lparr>blocks := setGroupSelected True members (blocks s2)\<rparr>
      in showGizmoAt center s3)"

definition deselectAll :: "state \<Rightarrow> state" where
  "deselectAll s =
     gizmoHide (s\<lparr>blocks := setGroupSelected False (selectedGroup s) (blocks s),
                  selectedGroup := [], centerBlock := None\<rparr>)"

definition findBlockById :: "int \<Rightarrow> block list \<Rightarrow> nat option" where
  "findBlockById i bs = find (\<lambda>k. blockId (bs ! k) = i) [0..<length bs]"

definition selectBlockById :: "int \<Rightarrow> state \<Rightarrow> state" where
  "selectBlockById i s = (case findBlockById i (blocks s) of
       None \<Rightarrow> s
     | Some b \<Rightarrow> andThen (selectGroupWithCenter (findConnectedBlocks (blocks s) b) b s) (\<lambda>s'. s'))"

text \<open>
  \<^verbatim>\<open>startDrag\<close>; \<open>hit\<close> is where the pointer ray meets the plane chosen for the drag,
  \<open>None\<close> when it does not (the source then keeps the zero vector).
\<close>

definition startDrag :: "nat \<Rightarrow> vec3 option \<Rightarrow> state \<Rightarrow> state" where
  "startDrag b hit s =
     (let s1 = gizmoHide (s\<lparr>isDragging := True, dragTarget := Some b\<rparr>);
          s2 = s1\<lparr>isGroupDrag := (b \<in> set (selectedGroup s1))\<rparr>;
          s3 = s2\<lparr>dragPlane := True, dragTargetStartPos := position (blocks s2 ! b)\<rparr>;
          s4 = s3\<lparr>groupDragStartPositions :=
                 (if isGroupDrag s3
                  then fold (\<lambda>i m. m(i \<mapsto> position (blocks s3 ! i))) (selectedGroup s3) Map.empty
                  else Map.empty)\<rparr>;
          planeIntersect = (case hit of Some p \<Rightarrow> p | None \<Rightarrow> (0, 0, 0))
      in s4\<lparr>dragOffset := vsub (position (blocks s4 ! b)) planeIntersect\<rparr>)"

subsection \<open>Group rotation\<close>

definition groupTarget :: "block list \<Rightarrow> nat \<Rightarrow> vec3 \<Rightarrow> quat \<Rightarrow> nat \<Rightarrow> vec3" where
  "groupTarget bs center pivot q i =
     (if i = center then position (bs ! i)
      else vadd pivot (vec_of_cell (vround (applyQuaternion q (vsub (position (bs ! i)) pivot)))))"

definition rotatedWorldY :: "vec3 \<Rightarrow> quat \<Rightarrow> cell \<Rightarrow> real" where
  "rotatedWorldY newPos q c = fst (snd newPos) + of_int (fst (snd (rotateCell q c)))"

text \<open>The first loop of \<^verbatim>\<open>rotateGroup\<close>: the target of one member and the running minimum.\<close>

definition targetStep ::
  "block list \<Rightarrow> nat \<Rightarrow> vec3 \<Rightarrow> quat \<Rightarrow> nat \<Rightarrow> (nat \<rightharpoonup> vec3) \<times> real option \<Rightarrow> (nat \<rightharpoonup> vec3) \<times> real option" where
  "targetStep bs center pivot q i acc = (case acc of (targets, minWorldY) \<Rightarrow>
     (let newPos = groupTarget bs center pivot q i
      in (targets(i \<mapsto> newPos),
          fold (\<lambda>c m. lowerMin (rotatedWorldY newPos q c) m) (cells (bs ! i)) minWorldY)))"

text \<open>The second loop: start the animations of one member.\<close>

definition launchStep ::
  "vec3 \<Rightarrow> real \<Rightarrow> vec3 \<Rightarrow> vec3 \<Rightarrow> real \<Rightarrow> nat \<Rightarrow> (nat \<rightharpoonup> vec3) \<times> block list \<Rightarrow> (nat \<rightharpoonup> vec3) \<times> block list" where
  "launchStep axis now pivot normalizedAxis yOffset i acc = (case acc of (targets, bs) \<Rightarrow>
     (case targets i of
        None \<Rightarrow> (targets, bs)
      | Some p \<Rightarrow> (case p of (px, py, pz) \<Rightarrow>
          (let bs1 = modify i (rotateBlock axis now) bs;
               pos = (px, py + yOffset, pz)
           in (targets(i \<mapsto> pos),
               if pos \<noteq> position (bs1 ! i)
               then modify i (animatePositionTo pos (Some pivot) (Some normalizedAxis) now) bs1
               else bs1)))))"

definition floorOffset :: "real option \<Rightarrow> real" where
  "floorOffset minWorldY = (case minWorldY of None \<Rightarrow> 0 | Some m \<Rightarrow> if m < 0 then - m else 0)"

definition rotateGroup :: "vec3 \<Rightarrow> real \<Rightarrow> state \<Rightarrow> state" where
  "rotateGroup axis now s = (case centerBlock s of
       None \<Rightarrow> s
     | Some center \<Rightarrow>
         if list_ex (\<lambda>i. animating (blocks s ! i)) (selectedGroup s) then s
         else (let pivot = position (blocks s ! center);
                   normalizedAxis = normalizeVec axis;
                   q = quarterTurn normalizedAxis;
                   tm = fold (targetStep (blocks s) center pivot q) (selectedGroup s) (Map.empty, None);
                   yOffset = floorOffset (snd tm)
               in s\<lparr>blocks := snd (fold (launchStep axis now pivot normalizedAxis yOffset)
                                       (selectedGroup s) (fst tm, blocks s))\<rparr>))"

subsection \<open>Pointer events\<close>

datatype ring = RingX | RingY | RingZ

fun getAxisForRing :: "ring \<Rightarrow> vec3" where
  "getAxisForRing RingX = (1, 0, 0)"
| "getAxisForRing RingY = (0, 1, 0)"
| "getAxisForRing RingZ = (0, 0, 1)"

text \<open>
  \<open>ringHit\<close>: the ring under the pointer and the angle \<^verbatim>\<open>getAngleOnPlane\<close> computes for
  the pointer ray on that ring's plane; \<open>blockHit\<close>: the block under the pointer.
\<close>

definition onPointerDown :: "int \<Rightarrow> real \<times> real \<Rightarrow> (ring \<times> real) option \<Rightarrow> nat option \<Rightarrow> state \<Rightarrow> state" where
  "onPointerDown button client ringHit blockHit s =
     (if button \<noteq> 0 then s
      else (let s1 = s\<lparr>mouseDownPos := client\<rparr>
        in case (if gizmoVisible s1 \<and> centerBlock s1 \<noteq> None then ringHit else None) of
             Some (r, angle) \<Rightarrow>
               s1\<lparr>isGizmoDragging := True, gizmoDragAxis := Some (getAxisForRing r),
                   gizmoDragPlane := True, gizmoDragStartAngle := angle,
                   gizmoAccumulatedAngle := 0\<rparr>
           | None \<Rightarrow> (case blockHit of
                 Some b \<Rightarrow> s1\<lparr>pendingBlock := Some b, hasMovedPastThreshold := False\<rparr>
               | None \<Rightarrow> s1)))"

text \<open>The two loops that bring the angle difference back into range.\<close>

function wrapDown :: "real \<Rightarrow> real" where
  "wrapDown d = (if d > pi then wrapDown (d - pi * 2) else d)"
  by pat_completeness auto
termination
proof (relation "measure (\<lambda>d. nat \<lceil>d / (pi * 2)\<rceil>)")
  show "wf (measure (\<lambda>d. nat \<lceil>d / (pi * 2)\<rceil>))"
    by simp
next
  fix d :: real
  assume big: "pi < d"
  have "(d - pi * 2) / (pi * 2) = d / (pi * 2) - 1"
    by (simp add: diff_divide_distrib)
  then have eq: "\<lceil>(d - pi * 2) / (pi * 2)\<rceil> = \<lceil>d / (pi * 2)\<rceil> - 1"
    by simp
  have "0 < d"
    using big pi_gt_zero by linarith
  then have "0 < d / (pi * 2)"
    by simp
  then have "0 < \<lceil>d / (pi * 2)\<rceil>"
    by simp
  with eq show "(d - pi * 2, d) \<in> measure (\<lambda>d. nat \<lceil>d / (pi * 2)\<rceil>)"
    by simp
qed

function wrapUp :: "real \<Rightarrow> real" where
  "wrapUp d = (if d < - pi then wrapUp (d + pi * 2) else d)"
  by pat_completeness auto
termination
proof (relation "measure (\<lambda>d. nat \<lceil>- d / (pi * 2)\<rceil>)")
  show "wf (measure (\<lambda>d. nat \<lceil>- d / (pi * 2)\<rceil>))"
    by simp
next
  fix d :: real
  assume small: "d < - pi"
  define k where "k = - d / (pi * 2)"
  have e: "- (d + pi * 2) / (pi * 2) = k - 1"
    unfolding k_def by (simp add: field_simps)
  have "0 < - d"
    using small pi_gt_zero by linarith
  then have "0 < k"
    unfolding k_def using pi_gt_zero by (intro divide_pos_pos) simp_all
  then have "0 < \<lceil>k\<rceil>"
    by simp
  then have less: "nat \<lceil>k - 1\<rceil> < nat \<lceil>k\<rceil>"
    by simp
  show "(d + pi * 2, d) \<in> measure (\<lambda>d. nat \<lceil>- d / (pi * 2)\<rceil>)"
    unfolding in_measure e k_def [symmetric] by (rule less)
qed

declare wrapDown.simps [simp del] wrapUp.simps [simp del]

definition wrapAngle :: "real \<Rightarrow> real" where
  "wrapAngle d = wrapUp (wrapDown d)"

definition pointerDistance :: "real \<times> real \<Rightarrow> real \<times> real \<Rightarrow> real" where
  "pointerDistance client down =
     (let dx = fst client - fst down; dy = snd client - snd down in sqrt (dx * dx + dy * dy))"

text \<open>The gizmo branch of \<^verbatim>\<open>onPointerMove\<close>, the ray having met the gizmo plane.\<close>

definition gizmoDragMove :: "vec3 \<Rightarrow> real \<Rightarrow> real \<Rightarrow> state \<Rightarrow> state" where
  "gizmoDragMove axis currentAngle now s =
     (let delta = wrapAngle (currentAngle - gizmoDragStartAngle s);
          s1 = s\<lparr>gizmoAccumulatedAngle := gizmoAccumulatedAngle s + delta,
                 gizmoDragStartAngle := currentAngle\<rparr>
      in if \<bar>gizmoAccumulatedAngle s1\<bar> \<ge> pi / 4
         then (let sgn = (if gizmoAccumulatedAngle s1 > 0 then 1 else - 1);
                   rotAxis = multiplyScalar axis sgn
               in (rotateGroup rotAxis now s1)\<lparr>gizmoAccumulatedAngle := 0\<rparr>)
         else s1)"

definition snapDragPos :: "vec3 \<Rightarrow> vec3" where
  "snapDragPos newPos = (case newPos of (x, y, z) \<Rightarrow>
     (of_int (js_round x), of_int (max 0 (js_round y)), of_int (js_round z)))"

text \<open>
  The group branch of a drag move. A member without a recorded start position makes the
  source throw on reading it; the loop stops there.
\<close>

fun moveGroup :: "(nat \<rightharpoonup> vec3) \<Rightarrow> vec3 \<Rightarrow> nat list \<Rightarrow> block list \<Rightarrow> block list" where
  "moveGroup starts delta [] bs = bs"
| "moveGroup starts delta (b # rest) bs = (case starts b of
       None \<Rightarrow> bs
     | Some startPos \<Rightarrow> (case startPos of (sx, sy, sz) \<Rightarrow> case delta of (dx, dy, dz) \<Rightarrow>
         moveGroup starts delta rest
           (modify b (\<lambda>blk. blk\<lparr>position := (sx + dx, max 0 (sy + dy), sz + dz)\<rparr>) bs)))"

definition blockDragMove :: "nat \<Rightarrow> vec3 \<Rightarrow> state \<Rightarrow> state" where
  "blockDragMove target intersectPoint s =
     (let snapped = snapDragPos (vadd intersectPoint (dragOffset s))
      in if isGroupDrag s
         then s\<lparr>blocks := moveGroup (groupDragStartPositions s)
                   (vsub snapped (dragTargetStartPos s)) (selectedGroup s) (blocks s)\<rparr>
         else s\<lparr>blocks := modify target (\<lambda>blk. blk\<lparr>position := snapped\<rparr>) (blocks s)\<rparr>)"

text \<open>
  \<open>gizmoAngle\<close>: the angle of the pointer ray on the gizmo plane, \<open>dragHit\<close>: where the
  ray meets the drag plane (the one in force, or the one a drag starting now chooses);
  each is \<open>None\<close> when the ray misses the plane.
\<close>

definition onPointerMove :: "real \<times> real \<Rightarrow> real option \<Rightarrow> vec3 option \<Rightarrow> real \<Rightarrow> state \<Rightarrow> state" where
  "onPointerMove client gizmoAngle dragHit now s =
     (case (if isGizmoDragging s \<and> gizmoDragPlane s \<and> centerBlock s \<noteq> None
            then gizmoDragAxis s else None) of
        Some axis \<Rightarrow> (case gizmoAngle of
            Some currentAngle \<Rightarrow> gizmoDragMove axis currentAngle now s
          | None \<Rightarrow> s)
      | None \<Rightarrow>
         (let s1 = (case pendingBlock s of
                      Some b \<Rightarrow>
                        if \<not> hasMovedPastThreshold s \<and> \<not> isDragging s
                           \<and> pointerDistance client (mouseDownPos s) \<ge> mouseMoveThreshold
                        then startDrag b dragHit (s\<lparr>hasMovedPastThreshold := True\<rparr>)
                        else s
                    | None \<Rightarrow> s)
          in case (if isDragging s1 \<and> dragPlane s1 then dragTarget s1 else None) of
               Some target \<Rightarrow> (case dragHit of
                   Some p \<Rightarrow> blockDragMove target p s1
                 | None \<Rightarrow> s1)
             | None \<Rightarrow> s1))"

definition resetPointerState :: "state \<Rightarrow> state" where
  "resetPointerState s = s\<lparr>pendingBlock := None, hasMovedPastThreshold := False,
     isDragging := False, isGroupDrag := False, dragTarget := None, dragPlane := False,
     groupDragStartPositions := Map.empty\<rparr>"

definition endBlockDrag :: "state \<Rightarrow> state" where
  "endBlockDrag s =
     (let s1 = s\<lparr>isDragging := False\<rparr>;
          s2 = (if isGroupDrag s1
                then s1\<lparr>blocks := fold (\<lambda>i. modify i snapToGrid) (selectedGroup s1) (blocks s1)\<rparr>
                else (case dragTarget s1 of
                        Some t \<Rightarrow> s1\<lparr>blocks := modify t snapToGrid (blocks s1)\<rparr>
                      | None \<Rightarrow> s1))
      in case centerBlock s2 of
           Some c \<Rightarrow> andThen (showGizmoAt c s2) resetPointerState
         | None \<Rightarrow> resetPointerState s2)"

text \<open>\<open>ringHit\<close>, \<open>blockHit\<close>: whether the ray at the release meets a ring, a block.\<close>

definition onPointerUp :: "int \<Rightarrow> real \<times> real \<Rightarrow> bool \<Rightarrow> bool \<Rightarrow> state \<Rightarrow> state" where
  "onPointerUp button client ringHit blockHit s =
     (if button \<noteq> 0 then s
      else if isGizmoDragging s
        then s\<lparr>isGizmoDragging := False, gizmoDragAxis := None, gizmoDragPlane := False\<rparr>
      else if isDragging s then endBlockDrag s
      else (case pendingBlock s of
          Some b \<Rightarrow>
            if \<not> hasMovedPastThreshold s
            then (if Some b \<noteq> centerBlock s
                  then andThen (selectGroupWithCenter (findConnectedBlocks (blocks s) b) b s)
                         resetPointerState
                  else resetPointerState s)
            else resetPointerState s
        | None \<Rightarrow>
            if pointerDistance client (mouseDownPos s) < mouseMoveThreshold
            then (if gizmoVisible s \<and> ringHit then resetPointerState s
                  else if \<not> blockHit then resetPointerState (deselectAll s)
                  else resetPointerState s)
            else resetPointerState s))"

definition onDblClick :: "nat option \<Rightarrow> state \<Rightarrow> state" where
  "onDblClick blockHit s = (case blockHit of
       None \<Rightarrow> s
     | Some b \<Rightarrow>
         (let s1 = s\<lparr>blocks := setGroupSelected False (selectedGroup s) (blocks s)\<rparr>;
              s2 = s1\<lparr>selectedGroup := [b], centerBlock := Some b\<rparr>;
              s3 = s2\<lparr>blocks := modify b (setSelected True) (blocks s2)\<rparr>
          in andThen (showGizmoAt b s3) (\<lambda>s'. s')))"

subsection \<open>Keyboard and tick\<close>

datatype direction = DirUp | DirDown | DirLeft | DirRight

definition cardinals :: "vec3 list" where
  "cardinals = [(1, 0, 0), (-1, 0, 0), (0, 1, 0), (0, -1, 0), (0, 0, 1), (0, 0, -1)]"

definition negate :: "vec3 \<Rightarrow> vec3" where
  "negate a = (case a of (ax, ay, az) \<Rightarrow> (- ax, - ay, - az))"

text \<open>The nearest cardinal: a later one wins only with a strictly larger dot product.\<close>

definition snapToCardinal :: "vec3 \<Rightarrow> vec3" where
  "snapToCardinal axis = snd (fold (\<lambda>c best. case fst best of
         None \<Rightarrow> (Some (vdot axis c), c)
       | Some bestDot \<Rightarrow> if vdot axis c > bestDot then (Some (vdot axis c), c) else best)
     cardinals (None, hd cardinals))"

definition flipAxis :: "direction \<Rightarrow> vec3 \<Rightarrow> vec3" where
  "flipAxis dir camDir =
     (let forward = normalizeVec (fst camDir, 0, snd (snd camDir));
          up = (0, 1, 0);
          right = normalizeVec (crossVectors forward up)
      in case dir of
           DirUp \<Rightarrow> negate right
         | DirDown \<Rightarrow> right
         | DirLeft \<Rightarrow> negate up
         | DirRight \<Rightarrow> up)"

definition flipBlock :: "direction \<Rightarrow> vec3 \<Rightarrow> real \<Rightarrow> state \<Rightarrow> state" where
  "flipBlock dir camDir now s =
     (if selectedGroup s = [] \<or> centerBlock s = None then s
      else if list_ex (\<lambda>i. animating (blocks s ! i)) (selectedGroup s) then s
      else rotateGroup (snapToCardinal (flipAxis dir camDir)) now s)"

text \<open>The per-frame \<^verbatim>\<open>update\<close>, without the collision report.\<close>

definition update :: "real \<Rightarrow> state \<Rightarrow> state" where
  "update now s =
     (let s1 = s\<lparr>blocks := map (updateAnimation now) (blocks s)\<rparr>
      in case (if gizmoVisible s1 \<and> \<not> isDragging s1 \<and> \<not> isGizmoDragging s1
               then centerBlock s1 else None) of
           Some c \<Rightarrow> (case getCenterCellWorldPos (blocks s1 ! c) of
               Some p \<Rightarrow> s1\<lparr>gizmoPosition := p\<rparr>
             | None \<Rightarrow> s1)
         | None \<Rightarrow> s1)"

subsection \<open>Sessions\<close>

datatype event =
    PointerDown int "real \<times> real" "(ring \<times> real) option" "nat option"
  | PointerMove "real \<times> real" "real option" "vec3 option" real
  | PointerUp int "real \<times> real" bool bool
  | DblClick "nat option"
  | FlipBlock direction vec3 real
  | SelectBlockById int
  | Tick real

fun step :: "state \<Rightarrow> event \<Rightarrow> state" where
  "step s (PointerDown button client ringHit blockHit) = onPointerDown button client ringHit blockHit s"
| "step s (PointerMove client gizmoAngle dragHit now) = onPointerMove client gizmoAngle dragHit now s"
| "step s (PointerUp button client ringHit blockHit) = onPointerUp button client ringHit blockHit s"
| "step s (DblClick blockHit) = onDblClick blockHit s"
| "step s (FlipBlock dir camDir now) = flipBlock dir camDir now s"
| "step s (SelectBlockById i) = selectBlockById i s"
| "step s (Tick now) = update now s"

definition run :: "state \<Rightarrow> event list \<Rightarrow> state" where
  "run s es = foldl step s es"

subsection \<open>Derived notions used in the statements\<close>

text \<open>
  One discrete rotation of a block carried through: \<^verbatim>\<open>rotateBlock\<close> at time \<open>now\<close>, then
  the tick at which the orientation animation has run its full duration.
\<close>

definition rotateAndSettle :: "vec3 \<Rightarrow> real \<Rightarrow> block \<Rightarrow> block" where
  "rotateAndSettle axis now b = updateAnimation (now + ROTATION_DURATION) (rotateBlock axis now b)"

text \<open>
  The reading of \<^verbatim>\<open>detectCollisions\<close> in the words of the specification: the ids of
  the blocks that share an occupied world cell with another block of the list.
\<close>

definition sharesCell :: "block list \<Rightarrow> nat \<Rightarrow> nat \<Rightarrow> bool" where
  "sharesCell bs i j =
     (set (getWorldCellPositions (bs ! i)) \<inter> set (getWorldCellPositions (bs ! j)) \<noteq> {})"

definition collidingIds :: "block list \<Rightarrow> int set" where
  "collidingIds bs =
     {blockId (bs ! i) | i. i < length bs \<and> (\<exists>j. j < length bs \<and> j \<noteq> i \<and> sharesCell bs i j)}"

text \<open>The collision scenario: two blocks with the cells of catalog entry 0, one moved by one unit along x.\<close>

definition scenarioA :: block where
  "scenarioA = newBlock (0, [(0, 0, 0), (-1, 0, 0), (0, 0, 1)])"

definition scenarioB :: block where
  "scenarioB = (newBlock (1, [(0, 0, 0), (-1, 0, 0), (0, 0, 1)]))\<lparr>position := (1, 0, 0)\<rparr>"

text \<open>
  The sequence of insertions \<^verbatim>\<open>detectCollisions\<close> makes, the ids inserted under one
  key, and the lookup in the association list.
\<close>

definition pushes :: "block list \<Rightarrow> (cell \<times> int) list" where
  "pushes bs = concat (map (\<lambda>b. map (\<lambda>c. (c, blockId b)) (getWorldCellPositions b)) bs)"

definition idsAt :: "cell \<Rightarrow> (cell \<times> int) list \<Rightarrow> int list" where
  "idsAt k ps = map snd (filter (\<lambda>p. fst p = k) ps)"

definition look :: "(cell \<times> int list) list \<Rightarrow> cell \<Rightarrow> int list" where
  "look m k = (case map_of m k of None \<Rightarrow> [] | Some ids \<Rightarrow> ids)"

text \<open>
  Face adjacency in the words of the specification, the relation it induces on the
  positions of a block list, and the connected component of a position.
\<close>

definition manhattan :: "cell \<Rightarrow> cell \<Rightarrow> int" where
  "manhattan ca cb = (case ca of (ax, ay, az) \<Rightarrow> case cb of (bx, by, bz) \<Rightarrow>
     \<bar>ax - bx\<bar> + \<bar>ay - by\<bar> + \<bar>az - bz\<bar>)"

definition faceAdjacent :: "block \<Rightarrow> block \<Rightarrow> bool" where
  "faceAdjacent a b = (\<exists>ca cb. ca \<in> set (getWorldCellPositions a)
      \<and> cb \<in> set (getWorldCellPositions b) \<and> manhattan ca cb = 1)"

definition adjacentRel :: "block list \<Rightarrow> (nat \<times> nat) set" where
  "adjacentRel bs = {(i, j). i < length bs \<and> j < length bs \<and> faceAdjacent (bs ! i) (bs ! j)}"

definition component :: "block list \<Rightarrow> nat \<Rightarrow> nat set" where
  "component bs seed = {j. (seed, j) \<in> (adjacentRel bs)\<^sup>*}"

text \<open>Three one-cell blocks in a row along x.\<close>

definition rowOfThree :: "block list" where
  "rowOfThree =
     [newBlock (0, [(0, 0, 0)]),
      (newBlock (1, [(0, 0, 0)]))\<lparr>position := (1, 0, 0)\<rparr>,
      (newBlock (2, [(0, 0, 0)]))\<lparr>position := (2, 0, 0)\<rparr>]"

text \<open>The invariant of the traversal loop.\<close>

definition bfsInv :: "block list \<Rightarrow> nat \<Rightarrow> nat list \<Rightarrow> nat list \<Rightarrow> bool" where
  "bfsInv bs seed v q \<longleftrightarrow>
     seed \<in> set v \<and> set q \<subseteq> set v \<and> set v \<subseteq> component bs seed \<and> set v \<subseteq> {..<length bs}
     \<and> (\<forall>x y. x \<in> set v \<and> x \<notin> set q \<and> (x, y) \<in> adjacentRel bs \<longrightarrow> y \<in> set v)"

text \<open>
  A session in which the block of catalog entry 2 has been isolated by a double click and
  a flip to the right has just been requested at time 0.
\<close>

definition spinning :: state where
  "spinning = run initialState [DblClick (Some 2), FlipBlock DirRight (0, 0, -1) 0]"

text \<open>
  The world height of every rotated cell of every member at its target before the floor
  adjustment, and the one vertical offset the group then gets: the amount by which the
  lowest of them is below the floor.
\<close>

definition rotatedGroupYs :: "block list \<Rightarrow> nat list \<Rightarrow> nat \<Rightarrow> quat \<Rightarrow> real list" where
  "rotatedGroupYs bs members center q =
     concat (map (\<lambda>i. map (rotatedWorldY (groupTarget bs center (position (bs ! center)) q i) q)
                        (cells (bs ! i))) members)"

definition uniformOffset :: "real list \<Rightarrow> real" where
  "uniformOffset ys = (if ys \<noteq> [] \<and> Min (set ys) < 0 then - Min (set ys) else 0)"

definition liftBy :: "real \<Rightarrow> vec3 \<Rightarrow> vec3" where
  "liftBy dy p = (case p of (x, y, z) \<Rightarrow> (x, y + dy, z))"

text \<open>
  What the second loop of \<^verbatim>\<open>rotateGroup\<close> does to one member with a given adjusted target:
  the orientation animation in every case, the position animation around pivot and axis
  when the target is not the current position.
\<close>

definition launched :: "vec3 \<Rightarrow> real \<Rightarrow> vec3 \<Rightarrow> vec3 \<Rightarrow> vec3 \<Rightarrow> block \<Rightarrow> block" where
  "launched axis now pivot normalizedAxis target b =
     (if target \<noteq> position b
      then animatePositionTo target (Some pivot) (Some normalizedAxis) now (rotateBlock axis now b)
      else rotateBlock axis now b)"

text \<open>
  Two sessions: the block of catalog entry 2 isolated by a double click, and the same
  block selected from the side bar, which brings its neighbour (entry 0) into the group.
\<close>

definition isolated :: state where
  "isolated = run initialState [DblClick (Some 2)]"


text \<open>
  A pending cell list has the length of the current one; a block list has the given cell
  counts with every pending list consistent; a method keeps both.
\<close>

definition cellInv :: "block \<Rightarrow> bool" where
  "cellInv b = (case pendingCells b of None \<Rightarrow> True | Some p \<Rightarrow> length p = length (cells b))"

definition shaped :: "nat list \<Rightarrow> block list \<Rightarrow> bool" where
  "shaped sh bs = (map (\<lambda>b. length (cells b)) bs = sh \<and> list_all cellInv bs)"

definition keeps :: "(block \<Rightarrow> block) \<Rightarrow> bool" where
  "keeps f = (\<forall>b. cellInv b \<longrightarrow> length (cells (f b)) = length (cells b) \<and> cellInv (f b))"

text \<open>
  The raycaster returns blocks of the list only: an event naming a block names a position
  below the number of blocks.
\<close>

definition eventOk :: "nat \<Rightarrow> event \<Rightarrow> bool" where
  "eventOk n e = (case e of
       PointerDown button client ringHit blockHit \<Rightarrow> (case blockHit of Some b \<Rightarrow> b < n | None \<Rightarrow> True)
     | DblClick blockHit \<Rightarrow> (case blockHit of Some b \<Rightarrow> b < n | None \<Rightarrow> True)
     | _ \<Rightarrow> True)"

text \<open>
  The invariant behind gizmo visibility: block references are positions of the list, a
  visible gizmo has a center, and outside a block drag a center has a visible gizmo.
\<close>

definition gizmoInv :: "nat \<Rightarrow> state \<Rightarrow> bool" where
  "gizmoInv n s =
     ((case centerBlock s of Some c \<Rightarrow> c < n | None \<Rightarrow> True)
      \<and> (case pendingBlock s of Some b \<Rightarrow> b < n | None \<Rightarrow> True)
      \<and> (gizmoVisible s \<longrightarrow> centerBlock s \<noteq> None)
      \<and> (\<not> isDragging s \<and> centerBlock s \<noteq> None \<longrightarrow> gizmoVisible s))"

text \<open>Every block has at least one cell.\<close>

definition populated :: "nat list \<Rightarrow> bool" where
  "populated sh = list_all (\<lambda>k. 0 < k) sh"

text \<open>
  Three sessions on the block of catalog entry 4, which starts at \<open>(0, 0, -3)\<close> with no
  neighbour: a click that selects it; the click followed by the start of a drag; and the
  click, a flip that turns it about x, the tick that completes the turn, and a drag down to
  height zero with its release.
\<close>

definition clickOnFour :: "event list" where
  "clickOnFour = [PointerDown 0 (0, 0) None (Some 4), PointerUp 0 (0, 0) False True]"

definition dragStarted :: "event list" where
  "dragStarted = clickOnFour @
     [PointerDown 0 (0, 0) None (Some 4), PointerMove (10, 0) None (Some (0, 0, -3)) 0]"

definition dragBelowFloor :: "event list" where
  "dragBelowFloor = clickOnFour @
     [FlipBlock DirDown (0, 0, -1) 0, Tick 200,
      PointerDown 0 (0, 0) None (Some 4),
      PointerMove (10, 0) None (Some (0, 1, -3)) 300,
      PointerMove (10, 5) None (Some (0, 0, -3)) 320,
      PointerUp 0 (10, 5) False True]"

text \<open>
  Between the press and the release of a click come ticks and pointer moves that stay
  closer to the press point than the threshold. In click mode no drag of either kind is
  in progress and the press point is recorded.
\<close>

definition isTick :: "event \<Rightarrow> bool" where
  "isTick e = (case e of Tick now \<Rightarrow> True | _ \<Rightarrow> False)"

definition clickMove :: "real \<times> real \<Rightarrow> event \<Rightarrow> bool" where
  "clickMove down e = (case e of
       PointerMove client gizmoAngle dragHit now \<Rightarrow> pointerDistance client down < mouseMoveThreshold
     | Tick now \<Rightarrow> True
     | _ \<Rightarrow> False)"

definition clickMode :: "real \<times> real \<Rightarrow> state \<Rightarrow> bool" where
  "clickMode down s = (\<not> isDragging s \<and> \<not> isGizmoDragging s \<and> mouseDownPos s = down)"

text \<open>
  A press on the y ring of the gizmo, a move of one pixel that sweeps an eighth of a turn
  on the ring's plane, a tick 200 ms later and the release; and the moves of a plain click.
\<close>

definition gizmoClickMoves :: "event list" where
  "gizmoClickMoves = [PointerMove (1, 0) (Some (pi / 4)) None 0, Tick 200]"

definition gizmoClick :: "event list" where
  "gizmoClick =
     PointerDown 0 (0, 0) (Some (RingY, 0)) None # gizmoClickMoves @ [PointerUp 0 (1, 0) True False]"

definition plainClickMoves :: "event list" where
  "plainClickMoves = [PointerMove (1, 0) None None 0, Tick 16, PointerMove (2, 0) None None 20]"

text \<open>What the ticks among a list of events do to the blocks.\<close>

fun tickBlocks :: "event list \<Rightarrow> block list \<Rightarrow> block list" where
  "tickBlocks [] bs = bs"
| "tickBlocks (Tick now # es) bs = tickBlocks es (map (updateAnimation now) bs)"
| "tickBlocks (e # es) bs = tickBlocks es bs"

text \<open>
  A block on which a quarter turn with quaternion \<open>q\<close> has been started from the block
  \<open>b0\<close>: the orientation animation runs towards \<open>q\<close> and the pending cells are the cells
  of \<open>b0\<close> rotated by \<open>q\<close> and rounded.
\<close>

definition quarterTurned :: "quat \<Rightarrow> block \<Rightarrow> block \<Rightarrow> bool" where
  "quarterTurned q b0 b =
     (isAnimating b \<and> animTargetQuat b = q \<and> cells b = cells b0
      \<and> pendingCells b = Some (map (rotateCell q) (cells b0)))"

text \<open>Every block of the list is as before or has such a quarter turn started.\<close>

definition turnedOrSame :: "quat \<Rightarrow> block list \<Rightarrow> block list \<Rightarrow> bool" where
  "turnedOrSame q orig cur =
     (length cur = length orig
      \<and> (\<forall>k. k < length orig \<longrightarrow> cur ! k = orig ! k \<or> quarterTurned q (orig ! k) (cur ! k)))"

text \<open>
  The y ring of the gizmo pressed, with the isolated block 2 at rest and with it in the
  middle of a rotation.
\<close>

definition ringPressed :: state where
  "ringPressed = run isolated [PointerDown 0 (0, 0) (Some (RingY, 0)) None]"

definition ringPressedWhileSpinning :: state where
  "ringPressedWhileSpinning = run spinning [PointerDown 0 (0, 0) (Some (RingY, 0)) None]"

text \<open>
  What is assumed of double-precision arithmetic: a rounded result of magnitude up to
  2^60 differs from the exact one by at most the relative error 2^-52 plus 2^-60 (round
  to nearest has half that relative error, and in the subnormal range an absolute error
  far below 2^-60), and the sine and cosine of the half angle are within 2^-50 of those
  of \<open>\<pi>/4\<close>. A cell offset is small when no coordinate exceeds 2^20 in
  magnitude. \<open>approx e m x' x\<close>: the computed \<open>x'\<close> is within \<open>e\<close> of the exact \<open>x\<close>,
  whose magnitude is at most \<open>m\<close>. Two arithmetics: \<open>doubles\<close> has exact operations on
  the two doubles nearest to the sine and cosine of \<open>\<pi>/4\<close>; \<open>skewed\<close> has the same two
  numbers and returns every result too large by the factor 1 + 2^-53.
\<close>

definition floatModel :: "floatArith \<Rightarrow> bool" where
  "floatModel F =
     ((\<forall>x. \<bar>x\<bar> \<le> 2 ^ 60 \<longrightarrow> \<bar>rnd F x - x\<bar> \<le> \<bar>x\<bar> / 2 ^ 52 + 1 / 2 ^ 60)
      \<and> \<bar>sinHalf F - sin (pi / 4)\<bar> \<le> 1 / 2 ^ 50
      \<and> \<bar>cosHalf F - cos (pi / 4)\<bar> \<le> 1 / 2 ^ 50)"

definition smallCell :: "cell \<Rightarrow> bool" where
  "smallCell c = (case c of (x, y, z) \<Rightarrow> \<bar>x\<bar> \<le> 2 ^ 20 \<and> \<bar>y\<bar> \<le> 2 ^ 20 \<and> \<bar>z\<bar> \<le> 2 ^ 20)"

definition approx :: "real \<Rightarrow> real \<Rightarrow> real \<Rightarrow> real \<Rightarrow> bool" where
  "approx e m x' x = (\<bar>x' - x\<bar> \<le> e \<and> \<bar>x\<bar> \<le> m)"

definition doubles :: floatArith where
  "doubles = \<lparr> rnd = (\<lambda>x. x),
               sinHalf = 6369051672525772 / 2 ^ 53,
               cosHalf = 6369051672525773 / 2 ^ 53 \<rparr>"

definition skewed :: floatArith where
  "skewed = doubles \<lparr> rnd := (\<lambda>x. x * (1 + 1 / 2 ^ 53)) \<rparr>"

text \<open>
  No cell offset occurs twice in a block and every one is small, in its cell list and in a
  pending one; the axis of a gizmo drag is one of the six cardinal axes; a method keeps
  the first.
\<close>

definition tidy :: "block \<Rightarrow> bool" where
  "tidy b = (distinct (cells b) \<and> list_all smallCell (cells b)
     \<and> (case pendingCells b of None \<Rightarrow> True | Some p \<Rightarrow> distinct p \<and> list_all smallCell p))"

definition axisOk :: "state \<Rightarrow> bool" where
  "axisOk s = (case gizmoDragAxis s of None \<Rightarrow> True | Some a \<Rightarrow> a \<in> set cardinals)"

definition tidyState :: "state \<Rightarrow> bool" where
  "tidyState s = (list_all tidy (blocks s) \<and> axisOk s)"

definition keepsTidy :: "(block \<Rightarrow> block) \<Rightarrow> bool" where
  "keepsTidy f = (\<forall>b. tidy b \<longrightarrow> tidy (f b))"

text \<open>
  A session that ends with two blocks overlapping: block 1, which starts at \<open>(3, 0, 0)\<close>,
  is pressed, dragged two units towards block 0 and released at \<open>(1, 0, 0)\<close>.
\<close>

definition dragOntoNeighbour :: "event list" where
  "dragOntoNeighbour =
     [PointerDown 0 (0, 0) None (Some 1),
      PointerMove (10, 0) None (Some (3, 0, 0)) 0,
      PointerMove (10, 5) None (Some (1, 0, 0)) 20,
      PointerUp 0 (10, 5) False True]"

text \<open>The selection group names each of its blocks once, by a position of the list.\<close>

definition groupOk :: "nat \<Rightarrow> state \<Rightarrow> bool" where
  "groupOk n s = (distinct (selectedGroup s) \<and> (\<forall>i\<in>set (selectedGroup s). i < n))"

section \<open>Properties\<close>

subsection \<open>Evaluation at concrete inputs\<close>

lemmas block_defs = newBlock_def placedBlock_def snapToGrid_def setSelected_def animating_def
  getWorldCellPositions_def animatePositionTo_def rotateBlock_def updateAnimation_def
  updatePosAnimation_def updateRotAnimation_def ROTATION_DURATION_def getCenterCellWorldPos_def
  js_round_def vadd_def vsub_def

lemmas engine_defs = run_def initialState_def newInteractionManager_def BLOCK_DEFINITIONS_def
  startPositions_def mouseMoveThreshold_def modify_def setGroupSelected_def gizmoShow_def
  gizmoHide_def showGizmoAt_def selectGroupWithCenter_def deselectAll_def findBlockById_def
  selectBlockById_def startDrag_def groupTarget_def rotatedWorldY_def targetStep_def
  launchStep_def floorOffset_def lowerMin_def rotateGroup_def onPointerDown_def
  pointerDistance_def gizmoDragMove_def snapDragPos_def blockDragMove_def onPointerMove_def
  resetPointerState_def endBlockDrag_def onPointerUp_def onDblClick_def flipBlock_def
  update_def findConnectedBlocks_def areAdjacent_def cellsTouch_def

lemma upt_3: "[0..<3] = [0, 1, 2]"
  by (simp add: upt_rec)

lemma upt_7: "[0..<7] = [0, 1, 2, 3, 4, 5, 6]"
  by (simp add: upt_rec)

lemma normalize_y [simp]: "normalizeVec (0, 1, 0) = (0, 1, 0)"
  by (simp add: normalizeVec_def vlength_def)

lemma flip_right_axis: "snapToCardinal (flipAxis DirRight (0, 0, -1)) = (0, 1, 0)"
  by (simp add: snapToCardinal_def flipAxis_def cardinals_def vdot_def)

lemma spinning_facts:
  "isAnimating (blocks spinning ! 2)" "selectedGroup spinning = [2]"
  by (simp_all add: spinning_def engine_defs block_defs flip_right_axis Let_def)

subsection \<open>Quarter turns about a cardinal axis\<close>

lemma js_round_of_int [simp]: "js_round (of_int k) = k"
  by (simp add: js_round_def)

lemma js_round_neg_of_int [simp]: "js_round (- of_int k) = - k"
  using js_round_of_int [of "- k"] by (simp del: js_round_of_int)

lemma half_turn_coeffs:
  "sin (pi / 4) * sin (pi / 4) = 1 / 2"
  "cos (pi / 4) * sin (pi / 4) = 1 / 2"
  "sin (pi / 4) * cos (pi / 4) = 1 / 2"
  by (simp_all add: sin_45 cos_45)

lemma normalize_cardinal: "a \<in> set cardinals \<Longrightarrow> normalizeVec a = a"
  by (auto simp: cardinals_def normalizeVec_def vlength_def)

lemma quarterTurn_apply:
  "applyQuaternion (quarterTurn (ax, ay, az)) (x, y, z) =
    (let s = sin (pi / 4); c = cos (pi / 4);
         tx = 2 * (ay * s * z - az * s * y);
         ty = 2 * (az * s * x - ax * s * z);
         tz = 2 * (ax * s * y - ay * s * x)
     in (x + c * tx + ay * s * tz - az * s * ty,
         y + c * ty + az * s * tx - ax * s * tz,
         z + c * tz + ax * s * ty - ay * s * tx))"
  by (simp add: quarterTurn_def setFromAxisAngle_def applyQuaternion_def Let_def)

lemma quarterTurn_cardinal:
  "applyQuaternion (quarterTurn (1, 0, 0)) (x, y, z) = (x, - z, y)"
  "applyQuaternion (quarterTurn (-1, 0, 0)) (x, y, z) = (x, z, - y)"
  "applyQuaternion (quarterTurn (0, 1, 0)) (x, y, z) = (z, y, - x)"
  "applyQuaternion (quarterTurn (0, -1, 0)) (x, y, z) = (- z, y, x)"
  "applyQuaternion (quarterTurn (0, 0, 1)) (x, y, z) = (- y, x, z)"
  "applyQuaternion (quarterTurn (0, 0, -1)) (x, y, z) = (y, - x, z)"
  by (simp_all add: quarterTurn_apply Let_def algebra_simps half_turn_coeffs)

lemma rotateCell_cardinal:
  "rotateCell (quarterTurn (1, 0, 0)) (x, y, z) = (x, - z, y)"
  "rotateCell (quarterTurn (-1, 0, 0)) (x, y, z) = (x, z, - y)"
  "rotateCell (quarterTurn (0, 1, 0)) (x, y, z) = (z, y, - x)"
  "rotateCell (quarterTurn (0, -1, 0)) (x, y, z) = (- z, y, x)"
  "rotateCell (quarterTurn (0, 0, 1)) (x, y, z) = (- y, x, z)"
  "rotateCell (quarterTurn (0, 0, -1)) (x, y, z) = (y, - x, z)"
  by (simp_all add: rotateCell_def vec_of_cell_def quarterTurn_cardinal vround_def)

lemma rotateCell_exact:
  assumes "a \<in> set cardinals"
  shows "applyQuaternion (quarterTurn a) (vec_of_cell c) = vec_of_cell (rotateCell (quarterTurn a) c)"
proof -
  obtain x y z where c: "c = (x, y, z)" by (cases c)
  from assms show ?thesis
    unfolding c by (auto simp: cardinals_def rotateCell_cardinal quarterTurn_cardinal vec_of_cell_def)
qed

lemma rotateCell_four:
  assumes "a \<in> set cardinals"
  shows "rotateCell (quarterTurn a) (rotateCell (quarterTurn a)
           (rotateCell (quarterTurn a) (rotateCell (quarterTurn a) c))) = c"
proof -
  obtain x y z where c: "c = (x, y, z)" by (cases c)
  from assms show ?thesis
    unfolding c by (auto simp: cardinals_def rotateCell_cardinal)
qed

subsection \<open>What a tick leaves alone\<close>

lemma updatePosAnimation_keeps [simp]:
  "cells (updatePosAnimation now b) = cells b"
  "pendingCells (updatePosAnimation now b) = pendingCells b"
  "isAnimating (updatePosAnimation now b) = isAnimating b"
  "animPivotGroup (updatePosAnimation now b) = animPivotGroup b"
  "animStartTime (updatePosAnimation now b) = animStartTime b"
  "blockId (updatePosAnimation now b) = blockId b"
  by (simp_all add: updatePosAnimation_def Let_def split: option.splits bool.splits prod.splits)

lemma rotateAndSettle_cells:
  assumes "\<not> isAnimating b"
  shows "cells (rotateAndSettle axis now b) = map (rotateCell (quarterTurn (normalizeVec axis))) (cells b)"
    and "\<not> isAnimating (rotateAndSettle axis now b)"
  using assms
  by (simp_all add: rotateAndSettle_def updateAnimation_def updateRotAnimation_def rotateBlock_def
        ROTATION_DURATION_def Let_def)

subsection \<open>Refusal while animating\<close>

text \<open>
  Claim C7. \<^verbatim>\<open>rotateBlock\<close> on a block whose orientation animation is running returns
  the block as it was (cells, pending cells and every animation field), and
  \<^verbatim>\<open>rotateGroup\<close> with a member of the selection group animating returns the engine
  state as it was.
\<close>

theorem rotation_refused_while_animating:
  "(isAnimating b \<longrightarrow> rotateBlock axis now b = b)
   \<and> (list_ex (\<lambda>i. animating (blocks s ! i)) (selectedGroup s)
        \<longrightarrow> rotateGroup axis' now' s = s)"
  by (simp add: rotateBlock_def rotateGroup_def split: option.splits)

theorem rotation_refused_while_animating_witness:
  "isAnimating (blocks spinning ! 2)
   \<and> rotateBlock (1, 0, 0) 50 (blocks spinning ! 2) = blocks spinning ! 2
   \<and> list_ex (\<lambda>i. animating (blocks spinning ! i)) (selectedGroup spinning)
   \<and> rotateGroup (1, 0, 0) 50 spinning = spinning"
proof -
  have ex: "list_ex (\<lambda>i. animating (blocks spinning ! i)) (selectedGroup spinning)"
    using spinning_facts by (simp add: animating_def)
  from rotation_refused_while_animating [of "blocks spinning ! 2" "(1, 0, 0)" 50 spinning "(1, 0, 0)" 50]
  show ?thesis
    using spinning_facts(1) ex by blast
qed

subsection \<open>Collision detection\<close>

lemma buildCellMap_pushes:
  "fold (\<lambda>b m. fold (\<lambda>c m'. cellMapPush c (blockId b) m') (getWorldCellPositions b) m) bs m0
     = fold (\<lambda>p. cellMapPush (fst p) (snd p)) (pushes bs) m0"
  by (induction bs arbitrary: m0) (simp_all add: pushes_def fold_map comp_def)

lemma map_of_cellMapPush:
  "map_of (cellMapPush k i m) = (map_of m)(k \<mapsto> look m k @ [i])"
  by (induction m) (auto simp: look_def fun_eq_iff)

lemma keys_cellMapPush: "fst ` set (cellMapPush k i m) = insert k (fst ` set m)"
  by (induction m) auto

lemma distinct_cellMapPush: "distinct (map fst m) \<Longrightarrow> distinct (map fst (cellMapPush k i m))"
proof (induction m)
  case Nil
  then show ?case by simp
next
  case (Cons e m)
  then show ?case
    using keys_cellMapPush [of k i m] by (auto simp: image_iff)
qed

lemma look_cellMapPush:
  "look (cellMapPush k i m) k' = (if k' = k then look m k @ [i] else look m k')"
  by (simp add: look_def map_of_cellMapPush)

lemma nonempty_cellMapPush:
  "\<forall>e\<in>set m. snd e \<noteq> [] \<Longrightarrow> \<forall>e\<in>set (cellMapPush k i m). snd e \<noteq> []"
  by (induction m) auto

lemma fold_push:
  "look (fold (\<lambda>p. cellMapPush (fst p) (snd p)) ps m) k = look m k @ idsAt k ps"
  by (induction ps arbitrary: m) (auto simp: idsAt_def look_cellMapPush)

lemma fold_push_distinct:
  "distinct (map fst m) \<Longrightarrow> distinct (map fst (fold (\<lambda>p. cellMapPush (fst p) (snd p)) ps m))"
  by (induction ps arbitrary: m) (simp_all add: distinct_cellMapPush)

lemma fold_push_nonempty:
  "\<forall>e\<in>set m. snd e \<noteq> [] \<Longrightarrow> \<forall>e\<in>set (fold (\<lambda>p. cellMapPush (fst p) (snd p)) ps m). snd e \<noteq> []"
proof (induction ps arbitrary: m)
  case Nil
  then show ?case by simp
next
  case (Cons p ps)
  show ?case
    using Cons.IH [OF nonempty_cellMapPush [OF Cons.prems]] by simp
qed

lemma look_Nil [simp]: "look [] k = []"
  by (simp add: look_def)

lemma collect_fold:
  "fold (\<lambda>e colliding. if length (snd e) > 1 then fold insert (snd e) colliding else colliding) m S
     = S \<union> (\<Union>e\<in>set (filter (\<lambda>e. length (snd e) > 1) m). set (snd e))"
proof (induction m arbitrary: S)
  case Nil
  then show ?case by simp
next
  case (Cons e m)
  have "fold insert (snd e) S = set (snd e) \<union> S"
    by (simp add: union_set_fold)
  with Cons show ?case by auto
qed

lemma detectCollisions_idsAt:
  "detectCollisions bs = {x. \<exists>k. length (idsAt k (pushes bs)) > 1 \<and> x \<in> set (idsAt k (pushes bs))}"
proof -
  let ?m = "buildCellMap bs"
  have m: "?m = fold (\<lambda>p. cellMapPush (fst p) (snd p)) (pushes bs) []"
    by (simp add: buildCellMap_def buildCellMap_pushes)
  have d: "distinct (map fst ?m)"
    unfolding m by (rule fold_push_distinct) simp
  have l: "look ?m k = idsAt k (pushes bs)" for k
    unfolding m by (simp add: fold_push)
  have entry: "e \<in> set ?m \<Longrightarrow> snd e = look ?m (fst e)" for e
    using d by (cases e) (simp add: look_def)
  have found: "length (look ?m k) > 1 \<Longrightarrow> (k, look ?m k) \<in> set ?m" for k
    by (auto simp: look_def split: option.splits dest: map_of_SomeD)
  have dc: "detectCollisions bs = (\<Union>e\<in>set (filter (\<lambda>e. 1 < length (snd e)) ?m). set (snd e))"
    unfolding detectCollisions_def collect_fold by simp
  have "x \<in> detectCollisions bs \<longleftrightarrow> (\<exists>k. length (look ?m k) > 1 \<and> x \<in> set (look ?m k))" for x
  proof
    assume "x \<in> detectCollisions bs"
    then obtain e where "e \<in> set ?m" "1 < length (snd e)" "x \<in> set (snd e)"
      unfolding dc by auto
    then have "length (look ?m (fst e)) > 1 \<and> x \<in> set (look ?m (fst e))"
      using entry [of e] by simp
    then show "\<exists>k. length (look ?m k) > 1 \<and> x \<in> set (look ?m k)"
      by (rule exI)
  next
    assume "\<exists>k. length (look ?m k) > 1 \<and> x \<in> set (look ?m k)"
    then obtain k where k: "length (look ?m k) > 1" "x \<in> set (look ?m k)"
      by auto
    from found [OF k(1)] k
    show "x \<in> detectCollisions bs"
      unfolding dc by (intro UN_I [of "(k, look ?m k)"]) simp_all
  qed
  then show ?thesis
    by (auto simp: l)
qed

lemma idsAt_one_block:
  "distinct cs \<Longrightarrow> idsAt k (map (\<lambda>c. (c, i)) cs) = (if k \<in> set cs then [i] else [])"
  by (induction cs) (auto simp: idsAt_def)

lemma idsAt_append: "idsAt k (ps @ qs) = idsAt k ps @ idsAt k qs"
  by (simp add: idsAt_def)

lemma idsAt_pushes:
  "\<forall>b\<in>set bs. distinct (getWorldCellPositions b) \<Longrightarrow>
     idsAt k (pushes bs) = map blockId (filter (\<lambda>b. k \<in> set (getWorldCellPositions b)) bs)"
proof (induction bs)
  case Nil
  then show ?case by (simp add: pushes_def idsAt_def)
next
  case (Cons b bs)
  have "pushes (b # bs) = map (\<lambda>c. (c, blockId b)) (getWorldCellPositions b) @ pushes bs"
    by (simp add: pushes_def)
  with Cons show ?case
    by (simp add: idsAt_append idsAt_one_block)
qed

lemma two_in_filter:
  "1 < length (filter P xs) \<longleftrightarrow> (\<exists>i j. i < length xs \<and> j < length xs \<and> i \<noteq> j \<and> P (xs ! i) \<and> P (xs ! j))"
proof -
  let ?S = "{i. i < length xs \<and> P (xs ! i)}"
  have fin: "finite ?S" by simp
  have "1 < length (filter P xs) \<longleftrightarrow> 1 < card ?S"
    by (simp add: length_filter_conv_card)
  also have "\<dots> \<longleftrightarrow> (\<exists>i j. i \<in> ?S \<and> j \<in> ?S \<and> i \<noteq> j)"
    using fin by (metis (no_types, lifting) One_nat_def Suc_lessI card_gt_0_iff card_le_Suc0_iff_eq empty_iff leD le_numeral_extra(4) not_less_eq_eq)
  finally show ?thesis by auto
qed

lemma js_round_shift: "js_round (x + of_int c) = js_round x + c"
proof -
  have "x + of_int c + 1 / 2 = (x + 1 / 2) + of_int c"
    by simp
  then show ?thesis
    unfolding js_round_def by (simp only: floor_add_int)
qed

lemma distinct_world_cells:
  "distinct (cells b) \<Longrightarrow> distinct (getWorldCellPositions b)"
  by (cases "position b") (auto simp: getWorldCellPositions_def distinct_map inj_on_def js_round_shift)

lemma detectCollisions_collidingIds:
  assumes "\<forall>b\<in>set bs. distinct (cells b)"
  shows "detectCollisions bs = collidingIds bs"
proof -
  let ?has = "\<lambda>k b. k \<in> set (getWorldCellPositions b)"
  have d: "\<forall>b\<in>set bs. distinct (getWorldCellPositions b)"
    using assms by (simp add: distinct_world_cells)
  have ids: "idsAt k (pushes bs) = map blockId (filter (?has k) bs)" for k
    by (rule idsAt_pushes [OF d])
  have mem: "x \<in> set (map blockId (filter (?has k) bs))
      \<longleftrightarrow> (\<exists>i. i < length bs \<and> ?has k (bs ! i) \<and> x = blockId (bs ! i))" for x k
    by (auto simp: in_set_conv_nth)
  have "x \<in> detectCollisions bs \<longleftrightarrow> x \<in> collidingIds bs" for x
  proof
    assume "x \<in> detectCollisions bs"
    then obtain k where k: "1 < length (filter (?has k) bs)"
        "x \<in> set (map blockId (filter (?has k) bs))"
      by (auto simp: detectCollisions_idsAt ids)
    from k(1) obtain i j where ij: "i < length bs" "j < length bs" "i \<noteq> j"
        "?has k (bs ! i)" "?has k (bs ! j)"
      unfolding two_in_filter by blast
    from k(2) obtain i' where i': "i' < length bs" "?has k (bs ! i')" "x = blockId (bs ! i')"
      unfolding mem by blast
    obtain j' where "j' < length bs" "j' \<noteq> i'" "?has k (bs ! j')"
      using ij by (cases "i' = i") auto
    with i' show "x \<in> collidingIds bs"
      unfolding collidingIds_def sharesCell_def by blast
  next
    assume "x \<in> collidingIds bs"
    then obtain i j k where "i < length bs" "j < length bs" "j \<noteq> i" "x = blockId (bs ! i)"
        "?has k (bs ! i)" "?has k (bs ! j)"
      unfolding collidingIds_def sharesCell_def by blast
    then have "1 < length (filter (?has k) bs)" "x \<in> set (map blockId (filter (?has k) bs))"
      unfolding two_in_filter mem by blast+
    then have "1 < length (idsAt k (pushes bs)) \<and> x \<in> set (idsAt k (pushes bs))"
      unfolding ids by simp
    then have "\<exists>k. 1 < length (idsAt k (pushes bs)) \<and> x \<in> set (idsAt k (pushes bs))"
      by (rule exI)
    then show "x \<in> detectCollisions bs"
      unfolding detectCollisions_idsAt by simp
  qed
  then show ?thesis by blast
qed

lemma scenario_value: "detectCollisions [scenarioA, scenarioB] = {0, 1}"
  by (simp add: detectCollisions_def buildCellMap_def scenarioA_def scenarioB_def newBlock_def
      getWorldCellPositions_def js_round_def insert_commute)

subsection \<open>Connected blocks\<close>

lemma cellsTouch_manhattan: "cellsTouch ca cb = (manhattan ca cb = 1)"
  by (simp add: cellsTouch_def manhattan_def split: prod.splits)

lemma areAdjacent_faceAdjacent: "areAdjacent a b = faceAdjacent a b"
  unfolding areAdjacent_def faceAdjacent_def list_ex_iff cellsTouch_manhattan by blast

lemma manhattan_sym: "manhattan ca cb = manhattan cb ca"
  by (cases ca, cases cb) (simp add: manhattan_def abs_minus_commute)

lemma faceAdjacent_sym: "faceAdjacent a b = faceAdjacent b a"
  unfolding faceAdjacent_def using manhattan_sym by metis

lemma sym_adjacentRel: "sym (adjacentRel bs)"
  using faceAdjacent_sym by (auto simp: sym_def adjacentRel_def)

lemma scanBlocks_filter:
  "distinct os \<Longrightarrow>
   scanBlocks bs cur os (v, q) =
     (v @ filter (\<lambda>w. w \<notin> set v \<and> areAdjacent (bs ! cur) (bs ! w)) os,
      q @ filter (\<lambda>w. w \<notin> set v \<and> areAdjacent (bs ! cur) (bs ! w)) os)"
proof (induction os arbitrary: v q)
  case Nil
  then show ?case by simp
next
  case (Cons other rest)
  have same: "filter (\<lambda>w. w \<noteq> other \<and> w \<notin> set v \<and> areAdjacent (bs ! cur) (bs ! w)) rest
      = filter (\<lambda>w. w \<notin> set v \<and> areAdjacent (bs ! cur) (bs ! w)) rest"
    using Cons.prems by (intro filter_cong) auto
  from Cons.prems have "distinct rest" by simp
  note IH = Cons.IH [OF this]
  show ?case
    by (simp add: IH same)
qed

lemma bfsInv_done:
  assumes "bfsInv bs seed v []"
  shows "set v = component bs seed"
proof
  show "set v \<subseteq> component bs seed"
    using assms by (simp add: bfsInv_def)
  show "component bs seed \<subseteq> set v"
  proof
    fix j
    assume "j \<in> component bs seed"
    then have "(seed, j) \<in> (adjacentRel bs)\<^sup>*"
      by (simp add: component_def)
    then show "j \<in> set v"
    proof (induction rule: rtrancl_induct)
      case base
      then show ?case using assms by (simp add: bfsInv_def)
    next
      case (step y z)
      then show ?case using assms by (auto simp: bfsInv_def)
    qed
  qed
qed

lemma bfsInv_step:
  assumes inv: "bfsInv bs seed v (cur # queue)"
    and scan: "scanBlocks bs cur [0..<length bs] (v, queue) = (v', q')"
  shows "bfsInv bs seed v' q'"
proof -
  let ?new = "filter (\<lambda>w. w \<notin> set v \<and> areAdjacent (bs ! cur) (bs ! w)) [0..<length bs]"
  have v': "v' = v @ ?new" and q': "q' = queue @ ?new"
    using scan by (simp_all add: scanBlocks_filter)
  have cur: "cur \<in> set v" "cur < length bs" "cur \<in> component bs seed"
    using inv by (auto simp: bfsInv_def)
  have new_adj: "(cur, w) \<in> adjacentRel bs" if "w \<in> set ?new" for w
    using that cur(2) by (simp add: adjacentRel_def areAdjacent_faceAdjacent)
  have new_comp: "w \<in> component bs seed" if "w \<in> set ?new" for w
    using new_adj [OF that] cur(3) by (auto simp: component_def intro: rtrancl_into_rtrancl)
  have closed: "y \<in> set v'" if x: "x \<in> set v'" "x \<notin> set q'" and xy: "(x, y) \<in> adjacentRel bs" for x y
  proof (cases "x = cur")
    case True
    with xy have "y < length bs" "areAdjacent (bs ! cur) (bs ! y)"
      by (simp_all add: adjacentRel_def areAdjacent_faceAdjacent)
    then show ?thesis
      unfolding v' by auto
  next
    case False
    with x have "x \<in> set v" "x \<notin> set (cur # queue)"
      unfolding v' q' by auto
    with inv xy have "y \<in> set v"
      unfolding bfsInv_def by blast
    then show ?thesis
      unfolding v' by simp
  qed
  have "seed \<in> set v'"
    using inv by (simp add: bfsInv_def v')
  moreover have "set q' \<subseteq> set v'"
    using inv by (auto simp: bfsInv_def v' q')
  moreover have "set v' \<subseteq> component bs seed"
    using inv new_comp by (auto simp: bfsInv_def v')
  moreover have "set v' \<subseteq> {..<length bs}"
    using inv by (auto simp: bfsInv_def v')
  ultimately show ?thesis
    unfolding bfsInv_def using closed by blast
qed

lemma bfsLoop_component:
  "bfsInv bs seed v q \<Longrightarrow> set (bfsLoop bs v q) = component bs seed"
proof (induction bs v q rule: bfsLoop.induct)
  case (1 bs visited)
  then show ?case by (simp add: bfsInv_done)
next
  case (2 bs visited current queue)
  obtain v' q' where scan: "scanBlocks bs current [0..<length bs] (visited, queue) = (v', q')"
    by (cases "scanBlocks bs current [0..<length bs] (visited, queue)")
  have "bfsInv bs seed v' q'"
    by (rule bfsInv_step [OF "2.prems" scan])
  from "2.IH" [OF scan [symmetric] this] show ?case
    by (simp add: scan)
qed

lemma findConnectedBlocks_component:
  assumes "seed < length bs"
  shows "set (findConnectedBlocks bs seed) = component bs seed"
proof -
  have "bfsInv bs seed [seed] [seed]"
    using assms by (simp add: bfsInv_def component_def)
  then show ?thesis
    unfolding findConnectedBlocks_def by (rule bfsLoop_component)
qed

lemma component_adjacent:
  assumes "(a, b) \<in> adjacentRel bs"
  shows "component bs a = component bs b"
proof -
  have ba: "(b, a) \<in> adjacentRel bs"
    using assms sym_adjacentRel [of bs] by (simp add: sym_def)
  show ?thesis
    unfolding component_def
    using assms ba by (auto intro: converse_rtrancl_into_rtrancl)
qed

text \<open>
  Claim C3. For a seed of the block list, \<^verbatim>\<open>findConnectedBlocks\<close> returns exactly the
  connected component of the seed under face adjacency; two adjacent blocks get the same
  set; a block adjacent to a block adjacent to the seed is in the seed's result; and the
  adjacency test of the source is face adjacency as the specification words it.
\<close>

theorem findConnectedBlocks_is_component:
  "(seed < length bs \<longrightarrow> set (findConnectedBlocks bs seed) = component bs seed)
   \<and> (\<forall>a b. a < length bs \<and> b < length bs \<and> areAdjacent (bs ! a) (bs ! b)
        \<longrightarrow> set (findConnectedBlocks bs a) = set (findConnectedBlocks bs b))
   \<and> (\<forall>a b c. a < length bs \<and> b < length bs \<and> c < length bs
        \<and> areAdjacent (bs ! a) (bs ! b) \<and> areAdjacent (bs ! b) (bs ! c)
        \<longrightarrow> c \<in> set (findConnectedBlocks bs a))
   \<and> (\<forall>a b. areAdjacent a b = faceAdjacent a b)"
proof (intro conjI allI impI)
  show "set (findConnectedBlocks bs seed) = component bs seed" if "seed < length bs"
    using that by (rule findConnectedBlocks_component)
  show "set (findConnectedBlocks bs a) = set (findConnectedBlocks bs b)"
    if "a < length bs \<and> b < length bs \<and> areAdjacent (bs ! a) (bs ! b)" for a b
  proof -
    from that have "(a, b) \<in> adjacentRel bs"
      by (simp add: adjacentRel_def areAdjacent_faceAdjacent)
    from component_adjacent [OF this] that show ?thesis
      by (simp add: findConnectedBlocks_component)
  qed
  show "c \<in> set (findConnectedBlocks bs a)"
    if "a < length bs \<and> b < length bs \<and> c < length bs
        \<and> areAdjacent (bs ! a) (bs ! b) \<and> areAdjacent (bs ! b) (bs ! c)" for a b c
  proof -
    from that have "(a, b) \<in> adjacentRel bs" "(b, c) \<in> adjacentRel bs"
      by (simp_all add: adjacentRel_def areAdjacent_faceAdjacent)
    then have "(a, c) \<in> (adjacentRel bs)\<^sup>*"
      by auto
    with that show ?thesis
      by (simp add: findConnectedBlocks_component component_def)
  qed
  show "areAdjacent a b = faceAdjacent a b" for a b
    by (rule areAdjacent_faceAdjacent)
qed

lemma rowOfThree_connected: "findConnectedBlocks rowOfThree 0 = [0, 1, 2]"
  by (simp add: findConnectedBlocks_def rowOfThree_def upt_3 areAdjacent_def
      getWorldCellPositions_def cellsTouch_def newBlock_def js_round_def)

theorem findConnectedBlocks_is_component_witness:
  "0 < length rowOfThree
   \<and> set (findConnectedBlocks rowOfThree 0) = component rowOfThree 0
   \<and> areAdjacent (rowOfThree ! 0) (rowOfThree ! 1)
   \<and> areAdjacent (rowOfThree ! 1) (rowOfThree ! 2)
   \<and> set (findConnectedBlocks rowOfThree 0) = set (findConnectedBlocks rowOfThree 1)
   \<and> 2 \<in> set (findConnectedBlocks rowOfThree 0)
   \<and> findConnectedBlocks rowOfThree 0 = [0, 1, 2]"
proof -
  have len: "length rowOfThree = 3"
    by (simp add: rowOfThree_def)
  have a01: "areAdjacent (rowOfThree ! 0) (rowOfThree ! 1)"
    and a12: "areAdjacent (rowOfThree ! 1) (rowOfThree ! 2)"
    by (simp_all add: rowOfThree_def areAdjacent_def getWorldCellPositions_def cellsTouch_def
        newBlock_def js_round_def)
  note inst = findConnectedBlocks_is_component [of 0 rowOfThree]
  from inst len have "set (findConnectedBlocks rowOfThree 0) = component rowOfThree 0"
    by simp
  moreover from inst len a01
  have "set (findConnectedBlocks rowOfThree 0) = set (findConnectedBlocks rowOfThree 1)"
    by (metis One_nat_def Suc_1 lessI less_SucI numeral_3_eq_3 zero_less_Suc)
  moreover from inst len a01 a12 have "2 \<in> set (findConnectedBlocks rowOfThree 0)"
    by (metis One_nat_def Suc_1 lessI less_SucI numeral_3_eq_3 zero_less_Suc)
  ultimately show ?thesis
    using len a01 a12 rowOfThree_connected by simp
qed

subsection \<open>Group rotation\<close>

lemma lowerMin_Some: "lowerMin y (Some v) = Some (min y v)"
  by (simp add: lowerMin_def min_def)

lemma fold_lowerMin_Some: "fold lowerMin ys (Some v) = Some (Min (insert v (set ys)))"
proof (induction ys arbitrary: v)
  case Nil
  then show ?case by simp
next
  case (Cons y ys)
  have "Min (insert (min y v) (set ys)) = Min (insert v (insert y (set ys)))"
  proof (cases "set ys = {}")
    case True
    then show ?thesis by (simp add: min.commute)
  next
    case False
    then show ?thesis
      by (simp add: Min_insert min.assoc min.commute min.left_commute)
  qed
  with Cons show ?case
    by (simp add: lowerMin_Some)
qed

lemma fold_lowerMin_None:
  "fold lowerMin ys None = (if ys = [] then None else Some (Min (set ys)))"
  by (cases ys) (simp_all add: lowerMin_def fold_lowerMin_Some)

lemma floorOffset_fold: "floorOffset (fold lowerMin ys None) = uniformOffset ys"
  by (simp add: fold_lowerMin_None floorOffset_def uniformOffset_def)

lemma targetStep_fold_snd:
  "snd (fold (targetStep bs c pivot q) grp (m, mn))
     = fold lowerMin (concat (map (\<lambda>i. map (rotatedWorldY (groupTarget bs c pivot q i) q)
                                       (cells (bs ! i))) grp)) mn"
  by (induction grp arbitrary: m mn) (simp_all add: targetStep_def Let_def fold_map comp_def)

lemma targetStep_fold_fst:
  "fst (fold (targetStep bs c pivot q) grp (m, mn)) i
     = (if i \<in> set grp then Some (groupTarget bs c pivot q i) else m i)"
  by (induction grp arbitrary: m mn) (simp_all add: targetStep_def Let_def)

lemma position_rotateBlock [simp]: "position (rotateBlock axis now b) = position b"
  by (simp add: rotateBlock_def Let_def)

lemma length_modify [simp]: "length (modify i f bs) = length bs"
  by (simp add: modify_def)

lemma nth_modify: "k < length bs \<Longrightarrow> modify i f bs ! k = (if k = i then f (bs ! k) else bs ! k)"
  by (simp add: modify_def nth_list_update)

lemma launchStep_fold:
  assumes "distinct grp" and "\<forall>i\<in>set grp. i < length bs"
    and "\<forall>i\<in>set grp. targets i = Some (tgt i)" and "k < length bs"
  shows "length (snd (fold (launchStep axis now pivot nAxis yOffset) grp (targets, bs))) = length bs
       \<and> snd (fold (launchStep axis now pivot nAxis yOffset) grp (targets, bs)) ! k
           = (if k \<in> set grp then launched axis now pivot nAxis (liftBy yOffset (tgt k)) (bs ! k)
              else bs ! k)"
  using assms
proof (induction grp arbitrary: targets bs)
  case Nil
  then show ?case by simp
next
  case (Cons i rest)
  obtain px py pz where p: "tgt i = (px, py, pz)"
    by (cases "tgt i")
  define pos where "pos = (px, py + yOffset, pz)"
  define bs1 where "bs1 = modify i (rotateBlock axis now) bs"
  define bs2 where "bs2 = (if pos \<noteq> position (bs1 ! i)
              then modify i (animatePositionTo pos (Some pivot) (Some nAxis) now) bs1 else bs1)"
  have i: "i < length bs" "targets i = Some (tgt i)" "i \<notin> set rest" "distinct rest"
    using Cons.prems by simp_all
  have step: "launchStep axis now pivot nAxis yOffset i (targets, bs) = (targets(i \<mapsto> pos), bs2)"
    using i(2) by (simp add: launchStep_def p Let_def pos_def bs1_def bs2_def)
  have len: "length bs2 = length bs"
    by (simp add: bs2_def bs1_def)
  have rest: "\<forall>j\<in>set rest. j < length bs2" "\<forall>j\<in>set rest. (targets(i \<mapsto> pos)) j = Some (tgt j)"
    using Cons.prems i by (auto simp: len)
  have k: "k < length bs2"
    using Cons.prems by (simp add: len)
  have here: "bs2 ! i = launched axis now pivot nAxis (liftBy yOffset (tgt i)) (bs ! i)"
    using i(1) by (simp add: bs2_def bs1_def nth_modify launched_def liftBy_def p pos_def)
  have other: "bs2 ! j = bs ! j" if "j \<noteq> i" "j < length bs" for j
    using that by (simp add: bs2_def bs1_def nth_modify)
  define R where "R = snd (fold (launchStep axis now pivot nAxis yOffset) rest (targets(i \<mapsto> pos), bs2))"
  have R: "snd (fold (launchStep axis now pivot nAxis yOffset) (i # rest) (targets, bs)) = R"
    by (simp add: step R_def)
  have IH: "length R = length bs2"
    "R ! k = (if k \<in> set rest then launched axis now pivot nAxis (liftBy yOffset (tgt k)) (bs2 ! k)
              else bs2 ! k)"
    using Cons.IH [OF i(4) rest k] unfolding R_def by blast+
  show ?case
  proof (cases "k = i")
    case True
    with IH i(3) here len show ?thesis
      unfolding R by simp
  next
    case False
    with IH other [of k] Cons.prems(4) len show ?thesis
      unfolding R by simp
  qed
qed

lemma rotateGroup_blocks:
  assumes center: "centerBlock s = Some c"
    and still: "\<not> list_ex (\<lambda>i. animating (blocks s ! i)) (selectedGroup s)"
    and dist: "distinct (selectedGroup s)"
    and rng: "\<forall>i\<in>set (selectedGroup s). i < length (blocks s)"
    and k: "k < length (blocks s)"
  shows "blocks (rotateGroup axis now s) ! k =
     (if k \<in> set (selectedGroup s)
      then launched axis now (position (blocks s ! c)) (normalizeVec axis)
             (liftBy (uniformOffset (rotatedGroupYs (blocks s) (selectedGroup s) c
                        (quarterTurn (normalizeVec axis))))
                (groupTarget (blocks s) c (position (blocks s ! c))
                   (quarterTurn (normalizeVec axis)) k))
             (blocks s ! k)
      else blocks s ! k)"
proof -
  let ?bs = "blocks s" and ?grp = "selectedGroup s"
  let ?pivot = "position (?bs ! c)" and ?q = "quarterTurn (normalizeVec axis)"
  let ?tm = "fold (targetStep ?bs c ?pivot ?q) ?grp (Map.empty, None)"
  have off: "floorOffset (snd ?tm) = uniformOffset (rotatedGroupYs ?bs ?grp c ?q)"
    by (simp add: targetStep_fold_snd floorOffset_fold rotatedGroupYs_def)
  have tg: "\<forall>i\<in>set ?grp. fst ?tm i = Some (groupTarget ?bs c ?pivot ?q i)"
    by (simp add: targetStep_fold_fst)
  have "blocks (rotateGroup axis now s)
      = snd (fold (launchStep axis now ?pivot (normalizeVec axis) (floorOffset (snd ?tm))) ?grp (fst ?tm, ?bs))"
    using center still by (simp add: rotateGroup_def Let_def)
  then show ?thesis
    using launchStep_fold [OF dist rng tg k] by (simp add: off)
qed



lemma liftBy_zero [simp]: "liftBy 0 p = p"
  by (cases p) (simp add: liftBy_def)


lemma normalize_x [simp]: "normalizeVec (1, 0, 0) = (1, 0, 0)"
  by (simp add: normalizeVec_def vlength_def)




subsection \<open>Cell counts\<close>

lemma keeps_basic:
  "keeps (setSelected v)" "keeps snapToGrid" "keeps (rotateBlock axis now)"
  "keeps (animatePositionTo target pivot ax now)" "keeps (\<lambda>blk. blk\<lparr>position := p\<rparr>)"
  by (auto simp: keeps_def cellInv_def setSelected_def snapToGrid_def rotateBlock_def
      animatePositionTo_def Let_def split: prod.splits option.splits)

lemma keeps_updateAnimation: "keeps (updateAnimation now)"
  by (auto simp: keeps_def cellInv_def updateAnimation_def updateRotAnimation_def Let_def
      split: option.splits)

lemma keeps_comp: "keeps f \<Longrightarrow> keeps g \<Longrightarrow> keeps (\<lambda>b. g (f b))"
  by (simp add: keeps_def)

lemma shaped_modify:
  assumes "keeps f" and "shaped sh bs"
  shows "shaped sh (modify i f bs)"
proof (cases "i < length bs")
  case False
  then have "bs[i := f (bs ! i)] = bs"
    by (simp add: list_update_beyond not_less)
  with assms(2) show ?thesis by (simp add: modify_def)
next
  case True
  with assms have b: "cellInv (bs ! i)"
    by (simp add: shaped_def list_all_length)
  with assms(1) have f: "length (cells (f (bs ! i))) = length (cells (bs ! i))" "cellInv (f (bs ! i))"
    by (simp_all add: keeps_def)
  have "map (\<lambda>b. length (cells b)) (bs[i := f (bs ! i)]) = map (\<lambda>b. length (cells b)) bs"
    using f(1) True by (simp add: map_update list_update_same_conv)
  moreover have "list_all cellInv (bs[i := f (bs ! i)])"
    using assms(2) f(2) True by (auto simp: shaped_def list_all_length nth_list_update)
  ultimately show ?thesis
    using assms(2) by (simp add: shaped_def modify_def)
qed

lemma shaped_fold_modify:
  "keeps f \<Longrightarrow> shaped sh bs \<Longrightarrow> shaped sh (fold (\<lambda>i. modify i f) grp bs)"
  by (induction grp arbitrary: bs) (simp_all add: shaped_modify)

lemma shaped_map: "keeps f \<Longrightarrow> shaped sh bs \<Longrightarrow> shaped sh (map f bs)"
  by (auto simp: shaped_def keeps_def list_all_iff)

lemma shaped_moveGroup: "shaped sh bs \<Longrightarrow> shaped sh (moveGroup starts delta grp bs)"
  by (induction grp arbitrary: bs)
    (auto simp: shaped_modify keeps_basic split: option.splits prod.splits)

lemma shaped_launchStep:
  "shaped sh bs \<Longrightarrow> shaped sh (snd (launchStep axis now pivot nAxis yOffset i (targets, bs)))"
  by (auto simp: launchStep_def Let_def shaped_modify keeps_basic split: option.splits prod.splits)

lemma shaped_launch_fold:
  "shaped sh (snd acc) \<Longrightarrow> shaped sh (snd (fold (launchStep axis now pivot nAxis yOffset) grp acc))"
proof (induction grp arbitrary: acc)
  case Nil
  then show ?case by simp
next
  case (Cons i grp)
  obtain targets bs where acc: "acc = (targets, bs)" by (cases acc)
  from Cons.prems have "shaped sh (snd (launchStep axis now pivot nAxis yOffset i acc))"
    unfolding acc by (simp add: shaped_launchStep)
  from Cons.IH [OF this] show ?case by simp
qed

lemma shaped_rotateGroup: "shaped sh (blocks s) \<Longrightarrow> shaped sh (blocks (rotateGroup axis now s))"
  by (simp add: rotateGroup_def Let_def shaped_launch_fold split: option.splits)

lemma shaped_setGroupSelected: "shaped sh bs \<Longrightarrow> shaped sh (setGroupSelected v grp bs)"
  by (simp add: setGroupSelected_def shaped_fold_modify keeps_basic)

lemma blocks_showGizmoAt:
  "blocks (case showGizmoAt c s of Returned s' \<Rightarrow> s' | Threw s' \<Rightarrow> s') = blocks s"
  by (simp add: showGizmoAt_def gizmoShow_def split: option.splits)

lemma blocks_andThen_showGizmoAt:
  "(\<And>s'. blocks (k s') = blocks s') \<Longrightarrow> blocks (andThen (showGizmoAt c s) k) = blocks s"
  by (simp add: showGizmoAt_def gizmoShow_def split: option.splits)

lemma blocks_resetPointerState [simp]: "blocks (resetPointerState s) = blocks s"
  by (simp add: resetPointerState_def)

lemma shaped_selectGroupWithCenter:
  assumes "shaped sh (blocks s)" and "\<And>s'. blocks (k s') = blocks s'"
  shows "shaped sh (blocks (andThen (selectGroupWithCenter grp c s) k))"
  using assms
  by (simp add: selectGroupWithCenter_def Let_def blocks_andThen_showGizmoAt shaped_setGroupSelected)

lemma shaped_onPointerDown:
  "shaped sh (blocks s) \<Longrightarrow> shaped sh (blocks (onPointerDown button client ringHit blockHit s))"
  by (simp add: onPointerDown_def Let_def split: option.splits prod.splits)

lemma blocks_startDrag [simp]: "blocks (startDrag b hit s) = blocks s"
  by (simp add: startDrag_def Let_def gizmoHide_def)

lemma shaped_blockDragMove:
  "shaped sh (blocks s) \<Longrightarrow> shaped sh (blocks (blockDragMove target p s))"
  by (simp add: blockDragMove_def Let_def shaped_moveGroup shaped_modify keeps_basic)

lemma shaped_gizmoDragMove:
  "shaped sh (blocks s) \<Longrightarrow> shaped sh (blocks (gizmoDragMove axis cur now s))"
  by (simp add: gizmoDragMove_def Let_def shaped_rotateGroup)

lemma shaped_onPointerMove:
  "shaped sh (blocks s) \<Longrightarrow> shaped sh (blocks (onPointerMove client gizmoAngle dragHit now s))"
  by (simp add: onPointerMove_def Let_def shaped_gizmoDragMove shaped_blockDragMove
      split: option.splits)

lemma shaped_endBlockDrag: "shaped sh (blocks s) \<Longrightarrow> shaped sh (blocks (endBlockDrag s))"
  by (simp add: endBlockDrag_def Let_def blocks_andThen_showGizmoAt shaped_fold_modify shaped_modify
      keeps_basic split: option.splits)

lemma shaped_deselectAll: "shaped sh (blocks s) \<Longrightarrow> shaped sh (blocks (deselectAll s))"
  by (simp add: deselectAll_def gizmoHide_def shaped_setGroupSelected)

lemma shaped_onPointerUp:
  "shaped sh (blocks s) \<Longrightarrow> shaped sh (blocks (onPointerUp button client ringHit blockHit s))"
  by (simp add: onPointerUp_def shaped_endBlockDrag shaped_selectGroupWithCenter shaped_deselectAll
      split: option.splits)

lemma shaped_onDblClick: "shaped sh (blocks s) \<Longrightarrow> shaped sh (blocks (onDblClick blockHit s))"
  by (simp add: onDblClick_def Let_def blocks_andThen_showGizmoAt shaped_setGroupSelected
      shaped_modify keeps_basic split: option.splits)

lemma shaped_flipBlock: "shaped sh (blocks s) \<Longrightarrow> shaped sh (blocks (flipBlock dir camDir now s))"
  by (simp add: flipBlock_def shaped_rotateGroup)

lemma shaped_selectBlockById: "shaped sh (blocks s) \<Longrightarrow> shaped sh (blocks (selectBlockById i s))"
  by (simp add: selectBlockById_def shaped_selectGroupWithCenter split: option.splits)

lemma shaped_update: "shaped sh (blocks s) \<Longrightarrow> shaped sh (blocks (update now s))"
  by (simp add: update_def Let_def shaped_map keeps_updateAnimation split: option.splits)

lemma shaped_step: "shaped sh (blocks s) \<Longrightarrow> shaped sh (blocks (step s e))"
  by (cases e)
    (simp_all add: shaped_onPointerDown shaped_onPointerMove shaped_onPointerUp shaped_onDblClick
      shaped_flipBlock shaped_selectBlockById shaped_update)

lemma shaped_run: "shaped sh (blocks s) \<Longrightarrow> shaped sh (blocks (run s es))"
  unfolding run_def by (induction es arbitrary: s) (simp_all add: shaped_step)

lemma shaped_initialState:
  "shaped (map (\<lambda>d. length (snd d)) BLOCK_DEFINITIONS) (blocks initialState)"
  by (simp add: shaped_def cellInv_def initialState_def newInteractionManager_def
      BLOCK_DEFINITIONS_def startPositions_def placedBlock_def newBlock_def snapToGrid_def)

text \<open>
  Claim C10. In every state a session can reach from the start, each block has the number
  of cells of its catalog entry; \<^verbatim>\<open>rotateBlock\<close> on a block at rest stores a pending
  list as long as the cell list; and in every reachable state each pending list is as long
  as the cell list it will replace.
\<close>

theorem cell_count_invariant:
  "map (\<lambda>b. length (cells b)) (blocks (run initialState es))
     = map (\<lambda>d. length (snd d)) BLOCK_DEFINITIONS
   \<and> (\<forall>b axis now. \<not> isAnimating b \<longrightarrow>
         (case pendingCells (rotateBlock axis now b) of
            Some p \<Rightarrow> length p = length (cells b) | None \<Rightarrow> False))
   \<and> list_all (\<lambda>b. case pendingCells b of None \<Rightarrow> True | Some p \<Rightarrow> length p = length (cells b))
        (blocks (run initialState es))"
proof -
  have "shaped (map (\<lambda>d. length (snd d)) BLOCK_DEFINITIONS) (blocks (run initialState es))"
    by (rule shaped_run [OF shaped_initialState])
  then show ?thesis
    by (simp add: shaped_def cellInv_def [abs_def] rotateBlock_def Let_def)
qed

subsection \<open>Gizmo visibility: the invariant\<close>

lemma shaped_cells_nonempty:
  assumes "shaped sh bs" and "populated sh" and "c < length sh"
  shows "cells (bs ! c) \<noteq> []"
proof -
  have "length (cells (bs ! c)) = sh ! c"
    using assms(1,3) by (auto simp: shaped_def)
  moreover have "0 < sh ! c"
    using assms(2,3) by (simp add: populated_def list_all_length)
  ultimately show ?thesis by auto
qed

lemma showGizmoAt_returns:
  assumes "shaped sh (blocks s)" and "populated sh" and "c < length sh"
  shows "\<exists>p. showGizmoAt c s = Returned (gizmoShow p s)"
proof -
  have "getCenterCellWorldPos (blocks s ! c) \<noteq> None"
    using shaped_cells_nonempty [OF assms]
    by (cases "cells (blocks s ! c)") (auto simp: getCenterCellWorldPos_def vadd_def split: prod.splits)
  then obtain p where "getCenterCellWorldPos (blocks s ! c) = Some p"
    by blast
  then have "showGizmoAt c s = Returned (gizmoShow p s)"
    by (simp add: showGizmoAt_def)
  then show ?thesis ..
qed

lemma control_rotateGroup [simp]:
  "centerBlock (rotateGroup axis now s) = centerBlock s"
  "pendingBlock (rotateGroup axis now s) = pendingBlock s"
  "gizmoVisible (rotateGroup axis now s) = gizmoVisible s"
  "isDragging (rotateGroup axis now s) = isDragging s"
  by (simp_all add: rotateGroup_def Let_def split: option.splits)

lemma gizmoInv_blocks_only:
  assumes "centerBlock s' = centerBlock s" "pendingBlock s' = pendingBlock s"
    "gizmoVisible s' = gizmoVisible s" "isDragging s' = isDragging s"
  shows "gizmoInv n s' = gizmoInv n s"
  using assms by (simp add: gizmoInv_def)

lemma gizmoInv_rotateGroup: "gizmoInv n (rotateGroup axis now s) = gizmoInv n s"
  by (rule gizmoInv_blocks_only) simp_all

lemma gizmoInv_onPointerDown:
  "gizmoInv n s \<Longrightarrow> eventOk n (PointerDown button client ringHit blockHit)
     \<Longrightarrow> gizmoInv n (onPointerDown button client ringHit blockHit s)"
  by (auto simp: gizmoInv_def eventOk_def onPointerDown_def Let_def split: option.splits prod.splits)

lemma gizmoInv_gizmoDragMove: "gizmoInv n (gizmoDragMove axis cur now s) = gizmoInv n s"
  by (rule gizmoInv_blocks_only) (simp_all add: gizmoDragMove_def Let_def)

lemma gizmoInv_blockDragMove: "gizmoInv n (blockDragMove target p s) = gizmoInv n s"
  by (rule gizmoInv_blocks_only) (simp_all add: blockDragMove_def Let_def)

lemma gizmoInv_startDrag:
  "gizmoInv n s \<Longrightarrow> gizmoInv n (startDrag b hit (s\<lparr>hasMovedPastThreshold := True\<rparr>))"
  by (auto simp: gizmoInv_def startDrag_def gizmoHide_def Let_def split: option.splits)

lemma gizmoInv_onPointerMove:
  "gizmoInv n s \<Longrightarrow> gizmoInv n (onPointerMove client gizmoAngle dragHit now s)"
  by (simp add: onPointerMove_def Let_def gizmoInv_gizmoDragMove gizmoInv_blockDragMove
      gizmoInv_startDrag split: option.splits)

lemma gizmoInv_reset_shown:
  "gizmoInv n s \<Longrightarrow> centerBlock s \<noteq> None \<Longrightarrow> gizmoInv n (resetPointerState (gizmoShow p s))"
  by (auto simp: gizmoInv_def resetPointerState_def gizmoShow_def split: option.splits)

lemma gizmoInv_endBlockDrag:
  assumes "gizmoInv (length sh) s" and "shaped sh (blocks s)" and "populated sh"
  shows "gizmoInv (length sh) (endBlockDrag s)"
proof -
  define s2 where "s2 = (let s1 = s\<lparr>isDragging := False\<rparr> in
      if isGroupDrag s1
      then s1\<lparr>blocks := fold (\<lambda>i. modify i snapToGrid) (selectedGroup s1) (blocks s1)\<rparr>
      else (case dragTarget s1 of
              Some t \<Rightarrow> s1\<lparr>blocks := modify t snapToGrid (blocks s1)\<rparr>
            | None \<Rightarrow> s1))"
  have ctl: "centerBlock s2 = centerBlock s" "pendingBlock s2 = pendingBlock s"
    "gizmoVisible s2 = gizmoVisible s" "\<not> isDragging s2"
    by (simp_all add: s2_def Let_def split: option.splits)
  have sh2: "shaped sh (blocks s2)"
    using assms(2)
    by (simp add: s2_def Let_def shaped_fold_modify shaped_modify keeps_basic split: option.splits)
  have e: "endBlockDrag s = (case centerBlock s2 of
           Some c \<Rightarrow> andThen (showGizmoAt c s2) resetPointerState
         | None \<Rightarrow> resetPointerState s2)"
    by (simp only: endBlockDrag_def s2_def Let_def)
  show ?thesis
  proof (cases "centerBlock s")
    case None
    with assms(1) ctl show ?thesis
      by (auto simp: e gizmoInv_def resetPointerState_def)
  next
    case (Some c)
    with assms(1) have c: "c < length sh"
      by (simp add: gizmoInv_def)
    from showGizmoAt_returns [OF sh2 assms(3) c]
    obtain p where p: "showGizmoAt c s2 = Returned (gizmoShow p s2)" ..
    from assms(1) ctl Some show ?thesis
      by (auto simp: e p gizmoInv_def resetPointerState_def gizmoShow_def)
  qed
qed

lemma gizmoInv_selectGroupWithCenter:
  assumes "gizmoInv (length sh) s" and "shaped sh (blocks s)" and "populated sh"
    and "b < length sh"
  shows "gizmoInv (length sh) (andThen (selectGroupWithCenter grp b s) resetPointerState)"
    and "gizmoInv (length sh) (andThen (selectGroupWithCenter grp b s) (\<lambda>s'. s'))"
proof -
  define s3 where "s3 = (let s1 = s\<lparr>blocks := setGroupSelected False (selectedGroup s) (blocks s)\<rparr>;
          s2 = s1\<lparr>selectedGroup := grp, centerBlock := Some b\<rparr>
      in s2\<lparr>blocks := setGroupSelected True grp (blocks s2)\<rparr>)"
  have sh3: "shaped sh (blocks s3)"
    using assms(2) by (simp add: s3_def Let_def shaped_setGroupSelected)
  have ctl: "centerBlock s3 = Some b" "pendingBlock s3 = pendingBlock s" "isDragging s3 = isDragging s"
    by (simp_all add: s3_def Let_def)
  have e: "selectGroupWithCenter grp b s = showGizmoAt b s3"
    by (simp only: selectGroupWithCenter_def s3_def Let_def)
  from showGizmoAt_returns [OF sh3 assms(3,4)]
  obtain p where p: "showGizmoAt b s3 = Returned (gizmoShow p s3)" ..
  from assms(1,4) ctl
  show "gizmoInv (length sh) (andThen (selectGroupWithCenter grp b s) resetPointerState)"
    by (auto simp: e p gizmoInv_def resetPointerState_def gizmoShow_def split: option.splits)
  from assms(1,4) ctl
  show "gizmoInv (length sh) (andThen (selectGroupWithCenter grp b s) (\<lambda>s'. s'))"
    by (auto simp: e p gizmoInv_def gizmoShow_def split: option.splits)
qed

lemma gizmoInv_reset: "gizmoInv n s \<Longrightarrow> \<not> isDragging s \<Longrightarrow> gizmoInv n (resetPointerState s)"
  by (auto simp: gizmoInv_def resetPointerState_def split: option.splits)

lemma gizmoInv_deselectAll: "gizmoInv n (resetPointerState (deselectAll s))"
  by (simp add: gizmoInv_def resetPointerState_def deselectAll_def gizmoHide_def)

lemma gizmoInv_onPointerUp:
  assumes "gizmoInv (length sh) s" and "shaped sh (blocks s)" and "populated sh"
  shows "gizmoInv (length sh) (onPointerUp button client ringHit blockHit s)"
proof -
  have gz: "gizmoInv (length sh) (s\<lparr>isGizmoDragging := False, gizmoDragAxis := None, gizmoDragPlane := False\<rparr>)"
    using assms(1) by (simp add: gizmoInv_def)
  have pend: "b < length sh" if "pendingBlock s = Some b" for b
    using assms(1) that by (simp add: gizmoInv_def)
  show ?thesis
    using assms gz pend
    by (simp add: onPointerUp_def gizmoInv_endBlockDrag gizmoInv_selectGroupWithCenter
        gizmoInv_reset gizmoInv_deselectAll split: option.splits)
qed

lemma gizmoInv_onDblClick:
  assumes "gizmoInv (length sh) s" and "shaped sh (blocks s)" and "populated sh"
    and "eventOk (length sh) (DblClick blockHit)"
  shows "gizmoInv (length sh) (onDblClick blockHit s)"
proof (cases blockHit)
  case None
  with assms(1) show ?thesis by (simp add: onDblClick_def)
next
  case (Some b)
  with assms(4) have b: "b < length sh"
    by (simp add: eventOk_def)
  define s3 where "s3 = (let s1 = s\<lparr>blocks := setGroupSelected False (selectedGroup s) (blocks s)\<rparr>;
          s2 = s1\<lparr>selectedGroup := [b], centerBlock := Some b\<rparr>
      in s2\<lparr>blocks := modify b (setSelected True) (blocks s2)\<rparr>)"
  have sh3: "shaped sh (blocks s3)"
    using assms(2) by (simp add: s3_def Let_def shaped_setGroupSelected shaped_modify keeps_basic)
  have ctl: "centerBlock s3 = Some b" "pendingBlock s3 = pendingBlock s" "isDragging s3 = isDragging s"
    by (simp_all add: s3_def Let_def)
  have e: "onDblClick blockHit s = andThen (showGizmoAt b s3) (\<lambda>s'. s')"
    by (simp only: onDblClick_def Some s3_def Let_def option.case)
  from showGizmoAt_returns [OF sh3 assms(3) b]
  obtain p where p: "showGizmoAt b s3 = Returned (gizmoShow p s3)" ..
  from assms(1) b ctl show ?thesis
    by (auto simp: e p gizmoInv_def gizmoShow_def split: option.splits)
qed

lemma findBlockById_range: "findBlockById i bs = Some b \<Longrightarrow> b < length bs"
  by (auto simp: findBlockById_def find_Some_iff)

lemma gizmoInv_selectBlockById:
  assumes "gizmoInv (length sh) s" and "shaped sh (blocks s)" and "populated sh"
  shows "gizmoInv (length sh) (selectBlockById i s)"
proof (cases "findBlockById i (blocks s)")
  case None
  with assms(1) show ?thesis by (simp add: selectBlockById_def)
next
  case (Some b)
  then have "b < length sh"
    using findBlockById_range [OF Some] assms(2) by (auto simp: shaped_def)
  from gizmoInv_selectGroupWithCenter(2) [OF assms this] Some show ?thesis
    by (simp add: selectBlockById_def)
qed

lemma gizmoInv_update: "gizmoInv n (update now s) = gizmoInv n s"
  by (rule gizmoInv_blocks_only) (simp_all add: update_def Let_def split: option.splits)

lemma gizmoInv_flipBlock: "gizmoInv n (flipBlock dir camDir now s) = gizmoInv n s"
  by (simp add: flipBlock_def gizmoInv_rotateGroup)

lemma gizmoInv_step:
  assumes "gizmoInv (length sh) s" and "shaped sh (blocks s)" and "populated sh"
    and "eventOk (length sh) e"
  shows "gizmoInv (length sh) (step s e)"
  using assms
  by (cases e)
    (simp_all add: gizmoInv_onPointerDown gizmoInv_onPointerMove gizmoInv_onPointerUp
      gizmoInv_onDblClick gizmoInv_selectBlockById gizmoInv_update gizmoInv_flipBlock)

lemma gizmoInv_run:
  assumes "gizmoInv (length sh) s" and "shaped sh (blocks s)" and "populated sh"
    and "list_all (eventOk (length sh)) es"
  shows "gizmoInv (length sh) (run s es)"
  using assms
proof (induction es arbitrary: s)
  case Nil
  then show ?case by (simp add: run_def)
next
  case (Cons e es)
  have "gizmoInv (length sh) (step s e)" "shaped sh (blocks (step s e))"
    using Cons.prems by (simp_all add: gizmoInv_step shaped_step)
  from Cons.IH [OF this Cons.prems(3)] Cons.prems(4) show ?case
    by (simp add: run_def)
qed

subsection \<open>Gizmo visibility\<close>

lemma populated_catalog: "populated (map (\<lambda>d. length (snd d)) BLOCK_DEFINITIONS)"
  by (simp add: populated_def BLOCK_DEFINITIONS_def)

lemma gizmoInv_initialState: "gizmoInv n initialState"
  by (simp add: gizmoInv_def initialState_def newInteractionManager_def)

lemma length_initial_blocks: "length (blocks initialState) = 7"
  by (simp add: initialState_def newInteractionManager_def BLOCK_DEFINITIONS_def startPositions_def)

text \<open>
  Claim C8, amended. In every state a session reaches from the start, a visible gizmo has
  a center block, and when no block drag is in progress the gizmo is visible exactly when
  a center block is selected.
\<close>

theorem gizmo_follows_center_outside_drag:
  assumes "list_all (eventOk (length (blocks initialState))) es"
  shows "(gizmoVisible (run initialState es) \<longrightarrow> centerBlock (run initialState es) \<noteq> None)
       \<and> (\<not> isDragging (run initialState es) \<longrightarrow>
            (gizmoVisible (run initialState es) \<longleftrightarrow> centerBlock (run initialState es) \<noteq> None))"
proof -
  let ?sh = "map (\<lambda>d. length (snd d)) BLOCK_DEFINITIONS"
  have n: "length ?sh = length (blocks initialState)"
    by (simp add: length_initial_blocks BLOCK_DEFINITIONS_def)
  have "list_all (eventOk (length ?sh)) es"
    using assms unfolding n .
  then have "gizmoInv (length ?sh) (run initialState es)"
    by (intro gizmoInv_run gizmoInv_initialState shaped_initialState populated_catalog)
  then show ?thesis
    by (auto simp: gizmoInv_def)
qed

lemma flip_down_axis: "snapToCardinal (flipAxis DirDown (0, 0, -1)) = (1, 0, 0)"
  by (simp add: snapToCardinal_def flipAxis_def cardinals_def vdot_def normalizeVec_def
      vlength_def crossVectors_def)

lemma dragStarted_facts:
  "centerBlock (run initialState dragStarted) = Some 4"
  "\<not> gizmoVisible (run initialState dragStarted)"
  "isDragging (run initialState dragStarted)"
  by (simp_all add: dragStarted_def clickOnFour_def engine_defs block_defs Let_def upt_7)

text \<open>
  Claim C8 as stated fails while a block drag is in progress: once the drag of the selected
  block 4 has started, a center is selected and the gizmo is hidden.
\<close>

theorem gizmo_hidden_during_drag:
  "list_all (eventOk (length (blocks initialState))) dragStarted
   \<and> \<not> (gizmoVisible (run initialState dragStarted)
          \<longleftrightarrow> centerBlock (run initialState dragStarted) \<noteq> None)"
  using dragStarted_facts
  by (simp add: length_initial_blocks dragStarted_def clickOnFour_def eventOk_def)

lemma dragBelowFloor_facts:
  "centerBlock (run initialState dragBelowFloor) = Some 4"
  "gizmoVisible (run initialState dragBelowFloor)"
  "\<not> isDragging (run initialState dragBelowFloor)"
  "position (blocks (run initialState dragBelowFloor) ! 4) = (0, 0, -3)"
  "cells (blocks (run initialState dragBelowFloor) ! 4) = [(0, 0, 0), (-1, 0, 0), (0, -1, 0), (0, 0, 1)]"
  by (simp_all add: dragBelowFloor_def clickOnFour_def engine_defs block_defs Let_def upt_7
      flip_down_axis rotateCell_cardinal quarterTurn_cardinal vround_def vec_of_cell_def ease_def)

theorem gizmo_follows_center_outside_drag_witness:
  "list_all (eventOk (length (blocks initialState))) dragBelowFloor
   \<and> \<not> isDragging (run initialState dragBelowFloor)
   \<and> gizmoVisible (run initialState dragBelowFloor)
   \<and> centerBlock (run initialState dragBelowFloor) = Some 4"
proof -
  have ok: "list_all (eventOk (length (blocks initialState))) dragBelowFloor"
    by (simp add: length_initial_blocks dragBelowFloor_def clickOnFour_def eventOk_def)
  from gizmo_follows_center_outside_drag [OF ok] dragBelowFloor_facts(1,3)
  have "gizmoVisible (run initialState dragBelowFloor)"
    by simp
  with ok dragBelowFloor_facts show ?thesis
    by simp
qed

subsection \<open>Cell counts at a concrete session; the floor after a drag\<close>

theorem cell_count_invariant_witness:
  "map (\<lambda>b. length (cells b)) (blocks (run initialState dragBelowFloor)) = [3, 4, 4, 4, 4, 4, 4]
   \<and> \<not> isAnimating (blocks initialState ! 4)
   \<and> pendingCells (rotateBlock (1, 0, 0) 0 (blocks initialState ! 4))
        = Some [(0, 0, 0), (-1, 0, 0), (0, -1, 0), (0, 0, 1)]
   \<and> cells (blocks (run initialState dragBelowFloor) ! 4)
        = [(0, 0, 0), (-1, 0, 0), (0, -1, 0), (0, 0, 1)]"
proof -
  have "map (\<lambda>b. length (cells b)) (blocks (run initialState dragBelowFloor)) = [3, 4, 4, 4, 4, 4, 4]"
    using cell_count_invariant [of dragBelowFloor] by (simp add: BLOCK_DEFINITIONS_def)
  moreover have "\<not> isAnimating (blocks initialState ! 4)"
    "pendingCells (rotateBlock (1, 0, 0) 0 (blocks initialState ! 4))
        = Some [(0, 0, 0), (-1, 0, 0), (0, -1, 0), (0, 0, 1)]"
    by (simp_all add: engine_defs block_defs rotateCell_cardinal)
  ultimately show ?thesis
    using dragBelowFloor_facts(5) by simp
qed

text \<open>
  Claim C1 at a failing input. Block 4 is selected by a click and turned about x; the
  floor adjustment of the rotation raises it to height 1, its cell \<open>(0, -1, 0)\<close> resting on
  the floor. It is then dragged down to height 0 and released. The drag clamps the height
  of the position only, so after the release the block is at rest with that cell at world
  height \<open>-1\<close>.
\<close>

theorem drag_leaves_cell_below_floor:
  "\<not> isDragging (run initialState dragBelowFloor)
   \<and> \<not> animating (blocks (run initialState dragBelowFloor) ! 4)
   \<and> getWorldCellPositions (blocks (run initialState dragBelowFloor) ! 4)
        = [(0, 0, -3), (-1, 0, -3), (0, -1, -3), (0, 0, -2)]
"
proof -
  have "\<not> animating (blocks (run initialState dragBelowFloor) ! 4)"
    by (simp add: dragBelowFloor_def clickOnFour_def engine_defs block_defs Let_def upt_7
      flip_down_axis rotateCell_cardinal quarterTurn_cardinal vround_def vec_of_cell_def ease_def)
  then show ?thesis
    using dragBelowFloor_facts by (simp add: getWorldCellPositions_def js_round_def)
qed

subsection \<open>Click purity\<close>

lemma unselect_setSelected [simp]: "setSelected False (setSelected v b) = setSelected False b"
  by (simp add: setSelected_def)

lemma unselect_modify:
  "map (setSelected False) (modify i (setSelected v) bs) = map (setSelected False) bs"
proof (cases "i < length bs")
  case True
  then have "(map (setSelected False) bs)[i := setSelected False (bs ! i)] = map (setSelected False) bs"
    by (metis list_update_id nth_map)
  then show ?thesis
    by (simp add: modify_def map_update)
next
  case False
  then show ?thesis
    by (simp add: modify_def list_update_beyond not_less)
qed

lemma unselect_setGroupSelected:
  "map (setSelected False) (setGroupSelected v grp bs) = map (setSelected False) bs"
  unfolding setGroupSelected_def
  by (induction grp arbitrary: bs) (simp_all add: unselect_modify)

lemma click_press:
  assumes "\<not> isDragging s" "\<not> isGizmoDragging s"
    and "\<not> (gizmoVisible s \<and> centerBlock s \<noteq> None \<and> ringHit \<noteq> None)"
  shows "clickMode client (onPointerDown 0 client ringHit blockHit s)"
    and "blocks (onPointerDown 0 client ringHit blockHit s) = blocks s"
  using assms
  by (auto simp: clickMode_def onPointerDown_def Let_def split: option.splits)

lemma click_move:
  assumes "clickMode down s" and "pointerDistance client down < mouseMoveThreshold"
  shows "onPointerMove client gizmoAngle dragHit now s = s"
  using assms by (simp add: clickMode_def onPointerMove_def Let_def split: option.splits)

lemma click_tick:
  assumes "clickMode down s"
  shows "clickMode down (update now s)"
    and "blocks (update now s) = map (updateAnimation now) (blocks s)"
  using assms by (simp_all add: clickMode_def update_def Let_def split: option.splits)

lemma click_moves:
  assumes "clickMode down s" and "list_all (clickMove down) es"
  shows "clickMode down (run s es) \<and> blocks (run s es) = tickBlocks es (blocks s)"
  using assms
proof (induction es arbitrary: s)
  case Nil
  then show ?case by (simp add: run_def)
next
  case (Cons e es)
  show ?case
  proof (cases e)
    case (PointerMove client gizmoAngle dragHit now)
    with Cons.prems have "step s e = s"
      by (simp add: clickMove_def click_move)
    with Cons PointerMove show ?thesis
      by (simp add: run_def)
  next
    case (Tick now)
    with Cons.prems have "clickMode down (step s e)"
      "blocks (step s e) = map (updateAnimation now) (blocks s)"
      by (simp_all add: click_tick)
    with Cons.IH [of "step s e"] Cons.prems(2) Tick show ?thesis
      by (simp add: run_def)
  next
    case (PointerDown x1 x2 x3 x4)
    with Cons.prems(2) show ?thesis by (simp add: clickMove_def)
  next
    case (PointerUp x1 x2 x3 x4)
    with Cons.prems(2) show ?thesis by (simp add: clickMove_def)
  next
    case (DblClick x1)
    with Cons.prems(2) show ?thesis by (simp add: clickMove_def)
  next
    case (FlipBlock x1 x2 x3)
    with Cons.prems(2) show ?thesis by (simp add: clickMove_def)
  next
    case (SelectBlockById x1)
    with Cons.prems(2) show ?thesis by (simp add: clickMove_def)
  qed
qed

lemma ticks_only: "blocks (run s (filter isTick es)) = tickBlocks es (blocks s)"
proof (induction es arbitrary: s)
  case Nil
  then show ?case by (simp add: run_def)
next
  case (Cons e es)
  show ?case
  proof (cases e)
    case (Tick now)
    have "blocks (step s e) = map (updateAnimation now) (blocks s)"
      by (simp add: Tick update_def Let_def split: option.splits)
    with Cons.IH [of "step s e"] Tick show ?thesis
      by (simp add: run_def isTick_def)
  next
    case (PointerDown x1 x2 x3 x4)
    with Cons.IH [of s] show ?thesis by (simp add: run_def isTick_def)
  next
    case (PointerMove x1 x2 x3 x4)
    with Cons.IH [of s] show ?thesis by (simp add: run_def isTick_def)
  next
    case (PointerUp x1 x2 x3 x4)
    with Cons.IH [of s] show ?thesis by (simp add: run_def isTick_def)
  next
    case (DblClick x1)
    with Cons.IH [of s] show ?thesis by (simp add: run_def isTick_def)
  next
    case (FlipBlock x1 x2 x3)
    with Cons.IH [of s] show ?thesis by (simp add: run_def isTick_def)
  next
    case (SelectBlockById x1)
    with Cons.IH [of s] show ?thesis by (simp add: run_def isTick_def)
  qed
qed

lemma select_updatePosAnimation:
  "updatePosAnimation now (b\<lparr>selected := v\<rparr>) = (updatePosAnimation now b)\<lparr>selected := v\<rparr>"
  by (cases "posAnimating b"; cases "posAnimStartPos b"; cases "posAnimTargetPos b";
      cases "posAnimPivot b"; cases "posAnimAxis b")
    (simp_all add: updatePosAnimation_def Let_def)

lemma select_updateRotAnimation:
  "updateRotAnimation now (b\<lparr>selected := v\<rparr>) = (updateRotAnimation now b)\<lparr>selected := v\<rparr>"
  by (cases "pendingCells b") (simp_all add: updateRotAnimation_def Let_def)

lemma unselect_updateAnimation:
  "setSelected False (updateAnimation now b) = updateAnimation now (setSelected False b)"
  by (simp add: setSelected_def updateAnimation_def select_updatePosAnimation select_updateRotAnimation)

lemma unselect_tickBlocks:
  "map (setSelected False) bs = map (setSelected False) bs' \<Longrightarrow>
     map (setSelected False) (tickBlocks es bs) = map (setSelected False) (tickBlocks es bs')"
proof (induction es bs arbitrary: bs' rule: tickBlocks.induct)
  case (2 now es bs)
  have "map (setSelected False) (map (updateAnimation now) bs)
      = map (updateAnimation now) (map (setSelected False) bs)"
    by (simp add: unselect_updateAnimation)
  also have "\<dots> = map (updateAnimation now) (map (setSelected False) bs')"
    using "2.prems" by simp
  also have "\<dots> = map (setSelected False) (map (updateAnimation now) bs')"
    by (simp add: unselect_updateAnimation)
  finally show ?case
    using "2.IH" by simp
qed simp_all

lemma blocks_andThen_select:
  "map (setSelected False) (blocks (andThen (selectGroupWithCenter grp c s) resetPointerState))
     = map (setSelected False) (blocks s)"
  by (simp add: selectGroupWithCenter_def Let_def showGizmoAt_def gizmoShow_def resetPointerState_def
      unselect_setGroupSelected split: option.splits)

lemma click_release:
  assumes "clickMode down s"
  shows "map (setSelected False) (blocks (onPointerUp button client ringHit blockHit s))
           = map (setSelected False) (blocks s)"
  using assms
  by (simp add: clickMode_def onPointerUp_def blocks_andThen_select deselectAll_def gizmoHide_def
      resetPointerState_def unselect_setGroupSelected split: option.splits)

text \<open>
  Claim C4, amended. A primary-button press made while no drag of either kind is in
  progress and that does not start a gizmo drag, followed by ticks and by moves that stay
  below the threshold, and then a release: the blocks are what the ticks alone would have
  made of them, except for their selected flags. In particular, with no tick in between,
  no position and no cell list has changed.
\<close>

theorem click_changes_selection_only:
  assumes "\<not> isDragging s" and "\<not> isGizmoDragging s"
    and "\<not> (gizmoVisible s \<and> centerBlock s \<noteq> None \<and> ringHit \<noteq> None)"
    and "list_all (clickMove client) mids"
  shows "map (setSelected False)
           (blocks (run s (PointerDown 0 client ringHit blockHit # mids
                             @ [PointerUp button client' ringHit' blockHit'])))
         = map (setSelected False) (blocks (run s (filter isTick mids)))
       \<and> (\<not> list_ex isTick mids \<longrightarrow>
            map position (blocks (run s (PointerDown 0 client ringHit blockHit # mids
                             @ [PointerUp button client' ringHit' blockHit'])))
              = map position (blocks s)
          \<and> map cells (blocks (run s (PointerDown 0 client ringHit blockHit # mids
                             @ [PointerUp button client' ringHit' blockHit'])))
              = map cells (blocks s))"
proof -
  let ?s1 = "onPointerDown 0 client ringHit blockHit s"
  let ?s2 = "run ?s1 mids"
  let ?s3 = "onPointerUp button client' ringHit' blockHit' ?s2"
  have run: "run s (PointerDown 0 client ringHit blockHit # mids
                     @ [PointerUp button client' ringHit' blockHit']) = ?s3"
    by (simp add: run_def)
  have s1: "clickMode client ?s1" "blocks ?s1 = blocks s"
    using assms(1-3) by (rule click_press)+
  have s2: "clickMode client ?s2" "blocks ?s2 = tickBlocks mids (blocks s)"
    using click_moves [OF s1(1) assms(4)] s1(2) by simp_all
  have s3: "map (setSelected False) (blocks ?s3) = map (setSelected False) (tickBlocks mids (blocks s))"
    using click_release [OF s2(1)] s2(2) by simp
  have first: "map (setSelected False) (blocks ?s3)
      = map (setSelected False) (blocks (run s (filter isTick mids)))"
    using s3 by (simp add: ticks_only)
  have second: "map position (blocks ?s3) = map position (blocks s)
      \<and> map cells (blocks ?s3) = map cells (blocks s)" if "\<not> list_ex isTick mids"
  proof -
    from that have "filter isTick mids = []"
      by (simp add: list_ex_iff filter_empty_conv)
    with first have eq: "map (setSelected False) (blocks ?s3) = map (setSelected False) (blocks s)"
      by (simp add: run_def)
    have "map position (map (setSelected False) (blocks ?s3)) = map position (map (setSelected False) (blocks s))"
      "map cells (map (setSelected False) (blocks ?s3)) = map cells (map (setSelected False) (blocks s))"
      using eq by simp_all
    then show ?thesis
      by (simp add: setSelected_def comp_def)
  qed
  from first second show ?thesis
    unfolding run by blast
qed

lemma wrapAngle_in_range: "- pi \<le> d \<Longrightarrow> d \<le> pi \<Longrightarrow> wrapAngle d = d"
  by (simp add: wrapAngle_def wrapDown.simps [of d] wrapUp.simps [of d])

lemma isolated_idle: "\<not> isDragging isolated" "\<not> isGizmoDragging isolated" "gizmoVisible isolated"
  by (simp_all add: isolated_def engine_defs block_defs Let_def)

lemma gizmoClick_cells:
  "cells (blocks (run isolated gizmoClick) ! 2) = [(0, 0, 0), (0, 0, 1), (0, 0, -1), (1, 0, -1)]"
  by (simp add: isolated_def gizmoClick_def gizmoClickMoves_def engine_defs block_defs Let_def
      wrapAngle_in_range multiplyScalar_def rotateCell_cardinal quarterTurn_cardinal vround_def
      vec_of_cell_def ease_def)

text \<open>
  Claim C4 as stated fails: a press on a gizmo ring starts the gizmo drag at once, with no
  threshold, and a move of one pixel can sweep the angle that commits a rotation. After
  this click the cells of block 2 are the rotated ones, while the tick alone leaves them.
\<close>

theorem gizmo_click_rotates:
  "\<not> isDragging isolated \<and> \<not> isGizmoDragging isolated
   \<and> list_all (clickMove (0, 0)) gizmoClickMoves
   \<and> gizmoClick = PointerDown 0 (0, 0) (Some (RingY, 0)) None # gizmoClickMoves
                     @ [PointerUp 0 (1, 0) True False]
   \<and> cells (blocks (run isolated gizmoClick) ! 2) = [(0, 0, 0), (0, 0, 1), (0, 0, -1), (1, 0, -1)]
   \<and> cells (blocks (run isolated (filter isTick gizmoClickMoves)) ! 2)
        = [(0, 0, 0), (-1, 0, 0), (1, 0, 0), (1, 0, 1)]
   \<and> map (setSelected False) (blocks (run isolated gizmoClick))
        \<noteq> map (setSelected False) (blocks (run isolated (filter isTick gizmoClickMoves)))"
proof -
  have moves: "list_all (clickMove (0, 0)) gizmoClickMoves"
    by (simp add: gizmoClickMoves_def clickMove_def pointerDistance_def mouseMoveThreshold_def)
  have ticked: "cells (blocks (run isolated (filter isTick gizmoClickMoves)) ! 2)
        = [(0, 0, 0), (-1, 0, 0), (1, 0, 0), (1, 0, 1)]"
    by (simp add: isolated_def gizmoClickMoves_def isTick_def engine_defs block_defs Let_def)
  have len: "length (blocks (run isolated gizmoClick)) = 7"
    "length (blocks (run isolated (filter isTick gizmoClickMoves))) = 7"
    using shaped_run [OF shaped_run [OF shaped_initialState], of "[DblClick (Some 2)]"]
    by (simp_all add: isolated_def shaped_def BLOCK_DEFINITIONS_def flip: length_map [of "\<lambda>b. length (cells b)"])
  have "map (setSelected False) (blocks (run isolated gizmoClick))
        \<noteq> map (setSelected False) (blocks (run isolated (filter isTick gizmoClickMoves)))"
  proof
    assume "map (setSelected False) (blocks (run isolated gizmoClick))
        = map (setSelected False) (blocks (run isolated (filter isTick gizmoClickMoves)))"
    then have "map (setSelected False) (blocks (run isolated gizmoClick)) ! 2
        = map (setSelected False) (blocks (run isolated (filter isTick gizmoClickMoves))) ! 2"
      by simp
    then have "setSelected False (blocks (run isolated gizmoClick) ! 2)
        = setSelected False (blocks (run isolated (filter isTick gizmoClickMoves)) ! 2)"
      using len by simp
    then have "cells (setSelected False (blocks (run isolated gizmoClick) ! 2))
        = cells (setSelected False (blocks (run isolated (filter isTick gizmoClickMoves)) ! 2))"
      by simp
    then show False
      using gizmoClick_cells ticked by (simp add: setSelected_def)
  qed
  with moves ticked gizmoClick_cells isolated_idle show ?thesis
    by (simp add: gizmoClick_def)
qed

theorem click_changes_selection_only_witness:
  "\<not> isDragging initialState \<and> \<not> isGizmoDragging initialState
   \<and> \<not> gizmoVisible initialState
   \<and> list_all (clickMove (0, 0)) plainClickMoves
   \<and> map (setSelected False)
        (blocks (run initialState (PointerDown 0 (0, 0) (Some (RingY, 0)) (Some 4) # plainClickMoves
                                     @ [PointerUp 0 (2, 0) False True])))
      = map (setSelected False) (blocks (run initialState (filter isTick plainClickMoves)))
   \<and> centerBlock (run initialState (PointerDown 0 (0, 0) (Some (RingY, 0)) (Some 4) # plainClickMoves
                                     @ [PointerUp 0 (2, 0) False True])) = Some 4"
proof -
  have idle: "\<not> isDragging initialState" "\<not> isGizmoDragging initialState" "\<not> gizmoVisible initialState"
    by (simp_all add: initialState_def newInteractionManager_def)
  then have nogizmo: "\<not> (gizmoVisible initialState \<and> centerBlock initialState \<noteq> None
      \<and> Some (RingY, 0::real) \<noteq> None)"
    by simp
  have moves: "list_all (clickMove (0, 0)) plainClickMoves"
    by (simp add: plainClickMoves_def clickMove_def pointerDistance_def mouseMoveThreshold_def)
  have sel: "centerBlock (run initialState (PointerDown 0 (0, 0) (Some (RingY, 0)) (Some 4) # plainClickMoves
                                     @ [PointerUp 0 (2, 0) False True])) = Some 4"
    using moves
    by (simp add: plainClickMoves_def clickMove_def engine_defs block_defs Let_def upt_7)
  from click_changes_selection_only [OF idle(1,2) nogizmo moves, of "Some 4" 0 "(2, 0)" False True]
  show ?thesis
    using idle moves sel by blast
qed

subsection \<open>Gizmo angle accumulation\<close>

lemma wrapDown_le: "wrapDown d \<le> pi"
  by (induction d rule: wrapDown.induct) (subst wrapDown.simps, simp)

lemma wrapDown_ge: "- pi \<le> d \<Longrightarrow> - pi \<le> wrapDown d"
proof (induction d rule: wrapDown.induct)
  case (1 d)
  show ?case
  proof (cases "pi < d")
    case True
    then have "- pi \<le> d - pi * 2" by simp
    from "1.IH" [OF True this] True show ?thesis
      by (subst wrapDown.simps) simp
  next
    case False
    with "1.prems" show ?thesis
      by (subst wrapDown.simps) simp
  qed
qed

lemma wrapDown_shift: "\<exists>k::int. wrapDown d = d + 2 * pi * of_int k"
proof (induction d rule: wrapDown.induct)
  case (1 d)
  show ?case
  proof (cases "pi < d")
    case True
    from "1.IH" [OF True] obtain k :: int where "wrapDown (d - pi * 2) = d - pi * 2 + 2 * pi * of_int k"
      by blast
    then have "wrapDown d = d + 2 * pi * of_int (k - 1)"
      using True by (subst wrapDown.simps) (simp add: algebra_simps)
    then show ?thesis by blast
  next
    case False
    then have "wrapDown d = d + 2 * pi * of_int 0"
      by (subst wrapDown.simps) simp
    then show ?thesis by blast
  qed
qed

lemma wrapUp_ge: "- pi \<le> wrapUp d"
  by (induction d rule: wrapUp.induct) (subst wrapUp.simps, simp)

lemma wrapUp_le: "d \<le> pi \<Longrightarrow> wrapUp d \<le> pi"
proof (induction d rule: wrapUp.induct)
  case (1 d)
  show ?case
  proof (cases "d < - pi")
    case True
    then have "d + pi * 2 \<le> pi" by simp
    from "1.IH" [OF True this] True show ?thesis
      by (subst wrapUp.simps) simp
  next
    case False
    with "1.prems" show ?thesis
      by (subst wrapUp.simps) simp
  qed
qed

lemma wrapUp_shift: "\<exists>k::int. wrapUp d = d + 2 * pi * of_int k"
proof (induction d rule: wrapUp.induct)
  case (1 d)
  show ?case
  proof (cases "d < - pi")
    case True
    from "1.IH" [OF True] obtain k :: int where "wrapUp (d + pi * 2) = d + pi * 2 + 2 * pi * of_int k"
      by blast
    then have "wrapUp d = d + 2 * pi * of_int (k + 1)"
      using True by (subst wrapUp.simps) (simp add: algebra_simps)
    then show ?thesis by blast
  next
    case False
    then have "wrapUp d = d + 2 * pi * of_int 0"
      by (subst wrapUp.simps) simp
    then show ?thesis by blast
  qed
qed

lemma wrapAngle_range: "- pi \<le> wrapAngle d \<and> wrapAngle d \<le> pi"
  by (simp add: wrapAngle_def wrapUp_ge wrapUp_le wrapDown_le)

lemma wrapAngle_shift: "\<exists>k::int. wrapAngle d = d + 2 * pi * of_int k"
proof -
  obtain k :: int where k: "wrapDown d = d + 2 * pi * of_int k"
    using wrapDown_shift by blast
  obtain j :: int where j: "wrapUp (wrapDown d) = wrapDown d + 2 * pi * of_int j"
    using wrapUp_shift by blast
  have "wrapAngle d = wrapDown d + 2 * pi * of_int j"
    by (simp add: wrapAngle_def j)
  also have "\<dots> = d + 2 * pi * of_int (k + j)"
    by (simp add: k algebra_simps)
  finally have "wrapAngle d = d + 2 * pi * of_int (k + j)" .
  then show ?thesis by blast
qed

lemma wrapAngle_minus_pi: "wrapAngle (0 - pi) = - pi"
  by (simp add: wrapAngle_def wrapDown.simps [of "- pi"] wrapUp.simps [of "- pi"])

lemma quarterTurned_animatePositionTo:
  "quarterTurned q b0 b \<Longrightarrow> quarterTurned q b0 (animatePositionTo target pivot ax now b)"
  by (simp add: quarterTurned_def animatePositionTo_def)

lemma quarterTurned_rotateBlock:
  "\<not> isAnimating b \<Longrightarrow>
     quarterTurned (quarterTurn (normalizeVec axis)) b (rotateBlock axis now b)"
  by (simp add: quarterTurned_def rotateBlock_def Let_def)

lemma quarterTurned_again:
  "quarterTurned q b0 b \<Longrightarrow> rotateBlock axis now b = b"
  by (simp add: quarterTurned_def rotateBlock_def)

lemma turnedOrSame_launchStep:
  assumes "turnedOrSame (quarterTurn (normalizeVec axis)) orig bs"
    and "i < length orig \<longrightarrow> \<not> isAnimating (orig ! i)"
  shows "turnedOrSame (quarterTurn (normalizeVec axis)) orig
           (snd (launchStep axis now pivot nAxis yOffset i (targets, bs)))"
proof (cases "targets i")
  case None
  with assms(1) show ?thesis by (simp add: launchStep_def)
next
  case (Some p)
  obtain px py pz where p: "p = (px, py, pz)" by (cases p)
  let ?q = "quarterTurn (normalizeVec axis)"
  define pos where "pos = (px, py + yOffset, pz)"
  define bs1 where "bs1 = modify i (rotateBlock axis now) bs"
  define bs2 where "bs2 = (if pos \<noteq> position (bs1 ! i)
      then modify i (animatePositionTo pos (Some pivot) (Some nAxis) now) bs1 else bs1)"
  have res: "snd (launchStep axis now pivot nAxis yOffset i (targets, bs)) = bs2"
    by (simp add: launchStep_def Some p Let_def pos_def bs1_def bs2_def)
  have len: "length bs = length orig" "length bs1 = length orig" "length bs2 = length orig"
    using assms(1) by (simp_all add: turnedOrSame_def bs1_def bs2_def)
  have "bs2 ! k = orig ! k \<or> quarterTurned ?q (orig ! k) (bs2 ! k)" if k: "k < length orig" for k
  proof (cases "k = i")
    case False
    then have "bs2 ! k = bs ! k"
      using k len by (simp add: bs2_def bs1_def nth_modify)
    with assms(1) k show ?thesis
      by (simp add: turnedOrSame_def)
  next
    case True
    have "quarterTurned ?q (orig ! i) (bs1 ! i)"
    proof (cases "bs ! i = orig ! i")
      case True
      with assms(2) k \<open>k = i\<close> have "\<not> isAnimating (bs ! i)"
        by simp
      from quarterTurned_rotateBlock [OF this, of axis now] True k \<open>k = i\<close> len show ?thesis
        by (simp add: bs1_def nth_modify)
    next
      case False
      with assms(1) k \<open>k = i\<close> have t: "quarterTurned ?q (orig ! i) (bs ! i)"
        by (auto simp: turnedOrSame_def)
      from quarterTurned_again [OF this] t k \<open>k = i\<close> len show ?thesis
        by (simp add: bs1_def nth_modify)
    qed
    then have "quarterTurned ?q (orig ! i) (bs2 ! i)"
      using k \<open>k = i\<close> len by (simp add: bs2_def nth_modify quarterTurned_animatePositionTo)
    with True show ?thesis by simp
  qed
  with len show ?thesis
    by (simp add: res turnedOrSame_def)
qed

lemma turnedOrSame_fold:
  assumes "turnedOrSame (quarterTurn (normalizeVec axis)) orig (snd acc)"
    and "\<forall>i\<in>set grp. i < length orig \<longrightarrow> \<not> isAnimating (orig ! i)"
  shows "turnedOrSame (quarterTurn (normalizeVec axis)) orig
           (snd (fold (launchStep axis now pivot nAxis yOffset) grp acc))"
  using assms
proof (induction grp arbitrary: acc)
  case Nil
  then show ?case by simp
next
  case (Cons i grp)
  obtain targets bs where acc: "acc = (targets, bs)" by (cases acc)
  have "turnedOrSame (quarterTurn (normalizeVec axis)) orig
           (snd (launchStep axis now pivot nAxis yOffset i acc))"
    unfolding acc using Cons.prems by (intro turnedOrSame_launchStep) (simp_all add: acc)
  from Cons.IH [OF this] Cons.prems(2) show ?case
    by simp
qed

lemma rotateGroup_quarter_turns:
  "turnedOrSame (quarterTurn (normalizeVec axis)) (blocks s) (blocks (rotateGroup axis now s))"
proof (cases "centerBlock s")
  case None
  then show ?thesis by (simp add: rotateGroup_def turnedOrSame_def)
next
  case (Some c)
  show ?thesis
  proof (cases "list_ex (\<lambda>i. animating (blocks s ! i)) (selectedGroup s)")
    case True
    with Some show ?thesis by (simp add: rotateGroup_def turnedOrSame_def)
  next
    case False
    then have still: "\<forall>i\<in>set (selectedGroup s). i < length (blocks s) \<longrightarrow> \<not> isAnimating (blocks s ! i)"
      by (simp add: list_ex_iff animating_def)
    have start: "turnedOrSame (quarterTurn (normalizeVec axis)) (blocks s) (snd (tm, blocks s))" for tm :: "nat \<rightharpoonup> vec3"
      by (simp add: turnedOrSame_def)
    from turnedOrSame_fold [OF start still] Some False show ?thesis
      by (simp add: rotateGroup_def Let_def)
  qed
qed

lemma blocks_rotateGroup_gizmo_fields:
  "blocks (rotateGroup axis now (s\<lparr>gizmoAccumulatedAngle := a, gizmoDragStartAngle := b\<rparr>))
     = blocks (rotateGroup axis now s)"
  by (simp add: rotateGroup_def Let_def split: option.splits)

lemma gizmoDragMove_small:
  assumes "\<bar>gizmoAccumulatedAngle s + wrapAngle (cur - gizmoDragStartAngle s)\<bar> < pi / 4"
  shows "gizmoDragMove axis cur now s
     = s\<lparr>gizmoAccumulatedAngle := gizmoAccumulatedAngle s + wrapAngle (cur - gizmoDragStartAngle s),
          gizmoDragStartAngle := cur\<rparr>"
  using assms by (simp add: gizmoDragMove_def Let_def)

lemma gizmoDragMove_large:
  assumes "pi / 4 \<le> \<bar>gizmoAccumulatedAngle s + wrapAngle (cur - gizmoDragStartAngle s)\<bar>"
  shows "gizmoDragMove axis cur now s
     = (rotateGroup
          (multiplyScalar axis
             (if 0 < gizmoAccumulatedAngle s + wrapAngle (cur - gizmoDragStartAngle s) then 1 else - 1))
          now
          (s\<lparr>gizmoAccumulatedAngle := gizmoAccumulatedAngle s + wrapAngle (cur - gizmoDragStartAngle s),
             gizmoDragStartAngle := cur\<rparr>))\<lparr>gizmoAccumulatedAngle := 0\<rparr>"
  using assms by (simp add: gizmoDragMove_def Let_def)

lemma gizmoDragStartAngle_rotateGroup [simp]:
  "gizmoDragStartAngle (rotateGroup axis now s) = gizmoDragStartAngle s"
  by (simp add: rotateGroup_def Let_def split: option.splits)

lemma isAnimating_rotateBlock [simp]: "isAnimating (rotateBlock axis now b)"
  by (simp add: rotateBlock_def Let_def)

lemma isAnimating_animatePositionTo [simp]:
  "isAnimating (animatePositionTo target pivot ax now b) = isAnimating b"
  by (simp add: animatePositionTo_def)

lemma launchStep_animating:
  assumes "k < length bs" and "isAnimating (bs ! k) \<or> (k = i \<and> targets i \<noteq> None)"
  shows "isAnimating (snd (launchStep axis now pivot nAxis yOffset i (targets, bs)) ! k)"
proof (cases "targets i")
  case None
  with assms show ?thesis by (simp add: launchStep_def)
next
  case (Some p)
  obtain px py pz where p: "p = (px, py, pz)" by (cases p)
  from assms show ?thesis
    by (auto simp: launchStep_def Some p Let_def nth_modify)
qed

lemma launchStep_keeps_targets:
  "targets k \<noteq> None \<Longrightarrow> fst (launchStep axis now pivot nAxis yOffset i (targets, bs)) k \<noteq> None"
  by (simp add: launchStep_def Let_def split: option.splits prod.splits)

lemma launchStep_keeps_length:
  "length (snd (launchStep axis now pivot nAxis yOffset i (targets, bs))) = length bs"
  by (simp add: launchStep_def Let_def split: option.splits prod.splits)

lemma launch_fold_animating:
  assumes "k < length (snd acc)"
    and "isAnimating (snd acc ! k) \<or> (k \<in> set grp \<and> (\<forall>i\<in>set grp. fst acc i \<noteq> None))"
  shows "isAnimating (snd (fold (launchStep axis now pivot nAxis yOffset) grp acc) ! k)"
  using assms
proof (induction grp arbitrary: acc)
  case Nil
  then show ?case by simp
next
  case (Cons i grp)
  obtain targets bs where acc: "acc = (targets, bs)" by (cases acc)
  let ?acc' = "launchStep axis now pivot nAxis yOffset i (targets, bs)"
  have len: "k < length (snd ?acc')"
    using Cons.prems(1) by (simp add: acc launchStep_keeps_length)
  have "isAnimating (snd ?acc' ! k) \<or> (k \<in> set grp \<and> (\<forall>j\<in>set grp. fst ?acc' j \<noteq> None))"
  proof (cases "isAnimating (bs ! k) \<or> k = i")
    case True
    with Cons.prems have "isAnimating (snd ?acc' ! k)"
      by (intro launchStep_animating) (auto simp: acc)
    then show ?thesis ..
  next
    case False
    with Cons.prems(2) have "k \<in> set grp" "\<forall>j\<in>set grp. targets j \<noteq> None"
      by (auto simp: acc)
    then show ?thesis
      by (simp add: launchStep_keeps_targets)
  qed
  from Cons.IH [OF len this] show ?case
    by (simp add: acc)
qed

lemma rotateGroup_members_turn:
  assumes center: "centerBlock s \<noteq> None"
    and still: "\<not> list_ex (\<lambda>i. animating (blocks s ! i)) (selectedGroup s)"
    and k: "k \<in> set (selectedGroup s)" "k < length (blocks s)"
  shows "quarterTurned (quarterTurn (normalizeVec axis)) (blocks s ! k)
           (blocks (rotateGroup axis now s) ! k)"
proof -
  obtain c where c: "centerBlock s = Some c"
    using center by blast
  let ?bs = "blocks s" and ?grp = "selectedGroup s"
  let ?pivot = "position (?bs ! c)" and ?q = "quarterTurn (normalizeVec axis)"
  let ?tm = "fold (targetStep ?bs c ?pivot ?q) ?grp (Map.empty, None)"
  have eq: "blocks (rotateGroup axis now s)
      = snd (fold (launchStep axis now ?pivot (normalizeVec axis) (floorOffset (snd ?tm))) ?grp (fst ?tm, ?bs))"
    using c still by (simp add: rotateGroup_def Let_def)
  have tg: "\<forall>i\<in>set ?grp. fst (fst ?tm, ?bs) i \<noteq> None"
    by (simp add: targetStep_fold_fst)
  have "isAnimating (blocks (rotateGroup axis now s) ! k)"
    unfolding eq using k tg by (intro launch_fold_animating) simp_all
  moreover have "\<not> isAnimating (?bs ! k)"
    using still k by (auto simp: list_ex_iff animating_def)
  moreover have "blocks (rotateGroup axis now s) ! k = ?bs ! k
      \<or> quarterTurned ?q (?bs ! k) (blocks (rotateGroup axis now s) ! k)"
    using rotateGroup_quarter_turns [of axis s now] k(2) by (simp add: turnedOrSame_def)
  ultimately show ?thesis
    by auto
qed

text \<open>
  Claim C9, amended. On a pointer move during a gizmo drag, with the pointer ray meeting the
  gizmo plane: the difference to the previous angle is brought into \<open>[-\<pi>, \<pi>]\<close> by whole
  turns (a difference of \<open>-\<pi>\<close> stays what it is) and added to the accumulator, and the new
  angle becomes the previous one. Below an eighth of a turn nothing else happens. From an
  eighth of a turn on, \<^verbatim>\<open>rotateGroup\<close> is called once with the drag axis times the sign of
  the accumulator and the accumulator is set to zero. When no member of the group is
  animating, that call starts a quarter turn about that axis for every member of the
  group; when a member is animating, every block is as before. In either case every block
  is as before or has a quarter turn about that axis started, so no turn other than a
  quarter turn is produced.
\<close>

theorem gizmo_move_commits_quarter_turns:
  assumes "isGizmoDragging s" and "gizmoDragPlane s" and "centerBlock s \<noteq> None"
    and "gizmoDragAxis s = Some axis"
  shows "(let delta = wrapAngle (cur - gizmoDragStartAngle s);
              acc = gizmoAccumulatedAngle s + delta;
              rotAxis = multiplyScalar axis (if 0 < acc then 1 else - 1);
              s' = onPointerMove client (Some cur) dragHit now s
          in - pi \<le> delta \<and> delta \<le> pi
             \<and> (\<exists>k::int. delta = cur - gizmoDragStartAngle s + 2 * pi * of_int k)
             \<and> wrapAngle (- pi) = - pi
             \<and> gizmoDragStartAngle s' = cur
             \<and> (\<bar>acc\<bar> < pi / 4 \<longrightarrow> gizmoAccumulatedAngle s' = acc \<and> blocks s' = blocks s)
             \<and> (pi / 4 \<le> \<bar>acc\<bar> \<longrightarrow>
                  gizmoAccumulatedAngle s' = 0
                  \<and> blocks s' = blocks (rotateGroup rotAxis now s)
                  \<and> turnedOrSame (quarterTurn (normalizeVec rotAxis)) (blocks s) (blocks s')
                  \<and> (\<not> list_ex (\<lambda>i. animating (blocks s ! i)) (selectedGroup s)
                        \<longrightarrow> (\<forall>i\<in>set (selectedGroup s). i < length (blocks s) \<longrightarrow>
                               quarterTurned (quarterTurn (normalizeVec rotAxis))
                                 (blocks s ! i) (blocks s' ! i)))
                  \<and> (list_ex (\<lambda>i. animating (blocks s ! i)) (selectedGroup s)
                        \<longrightarrow> blocks s' = blocks s)))"
proof -
  define delta where "delta = wrapAngle (cur - gizmoDragStartAngle s)"
  define acc where "acc = gizmoAccumulatedAngle s + delta"
  define rotAxis where "rotAxis = multiplyScalar axis (if 0 < acc then 1 else - 1)"
  define s' where "s' = onPointerMove client (Some cur) dragHit now s"
  have move: "s' = gizmoDragMove axis cur now s"
    using assms by (simp add: s'_def onPointerMove_def)
  have range: "- pi \<le> delta \<and> delta \<le> pi"
    unfolding delta_def by (rule wrapAngle_range)
  have shift: "\<exists>k::int. delta = cur - gizmoDragStartAngle s + 2 * pi * of_int k"
    unfolding delta_def by (rule wrapAngle_shift)
  have edge: "wrapAngle (- pi) = - pi"
    using wrapAngle_minus_pi by simp
  have small: "gizmoDragStartAngle s' = cur \<and> gizmoAccumulatedAngle s' = acc \<and> blocks s' = blocks s"
    if "\<bar>acc\<bar> < pi / 4"
    using that unfolding move acc_def delta_def by (simp add: gizmoDragMove_small)
  have large: "gizmoDragStartAngle s' = cur \<and> gizmoAccumulatedAngle s' = 0
      \<and> blocks s' = blocks (rotateGroup rotAxis now s)"
    if "pi / 4 \<le> \<bar>acc\<bar>"
    using that unfolding move acc_def delta_def rotAxis_def
    by (simp add: gizmoDragMove_large blocks_rotateGroup_gizmo_fields)
  have start: "gizmoDragStartAngle s' = cur"
    using small large by (cases "\<bar>acc\<bar> < pi / 4") simp_all
  have turned: "turnedOrSame (quarterTurn (normalizeVec rotAxis)) (blocks s) (blocks s')"
    if "pi / 4 \<le> \<bar>acc\<bar>"
    using large [OF that] rotateGroup_quarter_turns [of rotAxis s now] by simp
  have started: "\<forall>i\<in>set (selectedGroup s). i < length (blocks s) \<longrightarrow>
      quarterTurned (quarterTurn (normalizeVec rotAxis)) (blocks s ! i) (blocks s' ! i)"
    if "pi / 4 \<le> \<bar>acc\<bar>" "\<not> list_ex (\<lambda>i. animating (blocks s ! i)) (selectedGroup s)"
    using large [OF that(1)] rotateGroup_members_turn [OF assms(3) that(2), of _ rotAxis now]
    by simp
  have refused: "blocks s' = blocks s"
    if "pi / 4 \<le> \<bar>acc\<bar>" "list_ex (\<lambda>i. animating (blocks s ! i)) (selectedGroup s)"
    using large [OF that(1)] that(2) by (simp add: rotateGroup_def split: option.splits)
  from range shift edge start small large turned started refused show ?thesis
    unfolding Let_def delta_def [symmetric] acc_def [symmetric] rotAxis_def [symmetric]
      s'_def [symmetric]
    by blast
qed

lemma ringPressed_facts:
  "isGizmoDragging ringPressed" "gizmoDragPlane ringPressed" "centerBlock ringPressed = Some 2"
  "gizmoDragAxis ringPressed = Some (0, 1, 0)" "gizmoDragStartAngle ringPressed = 0"
  "gizmoAccumulatedAngle ringPressed = 0" "selectedGroup ringPressed = [2]"
  "\<not> animating (blocks ringPressed ! 2)"
  by (simp_all add: ringPressed_def isolated_def engine_defs block_defs Let_def)

lemma ringPressedWhileSpinning_facts:
  "isGizmoDragging ringPressedWhileSpinning" "gizmoDragPlane ringPressedWhileSpinning"
  "centerBlock ringPressedWhileSpinning = Some 2"
  "gizmoDragAxis ringPressedWhileSpinning = Some (0, 1, 0)"
  "gizmoDragStartAngle ringPressedWhileSpinning = 0"
  "gizmoAccumulatedAngle ringPressedWhileSpinning = 0"
  "selectedGroup ringPressedWhileSpinning = [2]"
  "isAnimating (blocks ringPressedWhileSpinning ! 2)"
  by (simp_all add: ringPressedWhileSpinning_def spinning_def engine_defs block_defs Let_def
      flip_right_axis)

lemma ringPressed_more:
  "length (blocks ringPressed) = 7"
  "cells (blocks ringPressed ! 2) = [(0, 0, 0), (-1, 0, 0), (1, 0, 0), (1, 0, 1)]"
  by (simp_all add: ringPressed_def isolated_def engine_defs block_defs Let_def)

theorem gizmo_move_commits_quarter_turns_witness:
  "isGizmoDragging ringPressed \<and> gizmoDragPlane ringPressed \<and> centerBlock ringPressed \<noteq> None
   \<and> gizmoDragAxis ringPressed = Some (0, 1, 0)
   \<and> wrapAngle (pi / 4 - gizmoDragStartAngle ringPressed) = pi / 4
   \<and> gizmoAccumulatedAngle (onPointerMove (1, 0) (Some (pi / 4)) None 0 ringPressed) = 0
   \<and> gizmoDragStartAngle (onPointerMove (1, 0) (Some (pi / 4)) None 0 ringPressed) = pi / 4
   \<and> blocks (onPointerMove (1, 0) (Some (pi / 4)) None 0 ringPressed)
        = blocks (rotateGroup (0, 1, 0) 0 ringPressed)
   \<and> \<not> list_ex (\<lambda>i. animating (blocks ringPressed ! i)) (selectedGroup ringPressed)
   \<and> selectedGroup ringPressed = [2]
   \<and> \<not> isAnimating (blocks ringPressed ! 2)
   \<and> isAnimating (blocks (onPointerMove (1, 0) (Some (pi / 4)) None 0 ringPressed) ! 2)
   \<and> animTargetQuat (blocks (onPointerMove (1, 0) (Some (pi / 4)) None 0 ringPressed) ! 2)
        = quarterTurn (0, 1, 0)
   \<and> pendingCells (blocks (onPointerMove (1, 0) (Some (pi / 4)) None 0 ringPressed) ! 2)
        = Some [(0, 0, 0), (0, 0, 1), (0, 0, -1), (1, 0, -1)]
   \<and> gizmoAccumulatedAngle (onPointerMove (1, 0) (Some (pi / 8)) None 0 ringPressed) = pi / 8
   \<and> blocks (onPointerMove (1, 0) (Some (pi / 8)) None 0 ringPressed) = blocks ringPressed"
proof -
  let ?s4 = "onPointerMove (1, 0) (Some (pi / 4)) None 0 ringPressed"
  have c: "centerBlock ringPressed \<noteq> None"
    by (simp add: ringPressed_facts)
  have w4: "wrapAngle (pi / 4 - gizmoDragStartAngle ringPressed) = pi / 4"
    and w8: "wrapAngle (pi / 8 - gizmoDragStartAngle ringPressed) = pi / 8"
    by (simp_all add: ringPressed_facts wrapAngle_in_range)
  have ax: "multiplyScalar (0, 1, 0) 1 = (0, 1, 0)"
    by (simp add: multiplyScalar_def)
  have idle: "\<not> list_ex (\<lambda>i. animating (blocks ringPressed ! i)) (selectedGroup ringPressed)"
    by (simp add: ringPressed_facts)
  have rest: "\<not> isAnimating (blocks ringPressed ! 2)"
    using ringPressed_facts(8) by (simp add: animating_def)
  note inst = gizmo_move_commits_quarter_turns [OF ringPressed_facts(1,2) c ringPressed_facts(4)]
  from inst [of "pi / 4" "(1, 0)" None 0]
  have big: "gizmoAccumulatedAngle ?s4 = 0 \<and> gizmoDragStartAngle ?s4 = pi / 4
      \<and> blocks ?s4 = blocks (rotateGroup (0, 1, 0) 0 ringPressed)"
    by (simp add: Let_def w4 ringPressed_facts(6) ax)
  from inst [of "pi / 4" "(1, 0)" None 0]
  have "quarterTurned (quarterTurn (0, 1, 0)) (blocks ringPressed ! 2) (blocks ?s4 ! 2)"
    using idle by (auto simp: Let_def w4 ringPressed_facts(6,7) ax ringPressed_more)
  then have turn: "isAnimating (blocks ?s4 ! 2) \<and> animTargetQuat (blocks ?s4 ! 2) = quarterTurn (0, 1, 0)
      \<and> pendingCells (blocks ?s4 ! 2) = Some [(0, 0, 0), (0, 0, 1), (0, 0, -1), (1, 0, -1)]"
    by (simp add: quarterTurned_def ringPressed_more rotateCell_cardinal)
  from inst [of "pi / 8" "(1, 0)" None 0]
  have little: "gizmoAccumulatedAngle (onPointerMove (1, 0) (Some (pi / 8)) None 0 ringPressed) = pi / 8
      \<and> blocks (onPointerMove (1, 0) (Some (pi / 8)) None 0 ringPressed) = blocks ringPressed"
    by (simp add: Let_def w8 ringPressed_facts(6))
  from big little turn w4 c idle rest ringPressed_facts show ?thesis
    by simp
qed

text \<open>
  Claim C9 as stated fails twice: a difference of exactly \<open>-\<pi>\<close> stays \<open>-\<pi>\<close>, outside
  \<open>(-\<pi>, \<pi>]\<close>; and with block 2 in the middle of a rotation the accumulator reaches an
  eighth of a turn and is reset, but no rotation is committed.
\<close>

theorem gizmo_wrap_keeps_minus_pi_and_rotation_dropped:
  "wrapAngle (0 - pi) = - pi
   \<and> isGizmoDragging ringPressedWhileSpinning \<and> gizmoDragPlane ringPressedWhileSpinning
   \<and> centerBlock ringPressedWhileSpinning = Some 2
   \<and> gizmoDragAxis ringPressedWhileSpinning = Some (0, 1, 0)
   \<and> gizmoAccumulatedAngle ringPressedWhileSpinning
        + wrapAngle (pi / 4 - gizmoDragStartAngle ringPressedWhileSpinning) = pi / 4
   \<and> gizmoAccumulatedAngle (onPointerMove (1, 0) (Some (pi / 4)) None 50 ringPressedWhileSpinning) = 0
   \<and> blocks (onPointerMove (1, 0) (Some (pi / 4)) None 50 ringPressedWhileSpinning)
        = blocks ringPressedWhileSpinning"
proof -
  have w: "wrapAngle (pi / 4 - gizmoDragStartAngle ringPressedWhileSpinning) = pi / 4"
    by (simp add: ringPressedWhileSpinning_facts wrapAngle_in_range)
  have w': "wrapAngle (pi / 4) = pi / 4"
    by (simp add: wrapAngle_in_range)
  have busy: "list_ex (\<lambda>i. animating (blocks ringPressedWhileSpinning ! i))
      (selectedGroup ringPressedWhileSpinning)"
    by (simp add: ringPressedWhileSpinning_facts animating_def)
  have "onPointerMove (1, 0) (Some (pi / 4)) None 50 ringPressedWhileSpinning
      = gizmoDragMove (0, 1, 0) (pi / 4) 50 ringPressedWhileSpinning"
    by (simp add: onPointerMove_def ringPressedWhileSpinning_facts)
  also have "\<dots> = (ringPressedWhileSpinning\<lparr>gizmoAccumulatedAngle := pi / 4,
      gizmoDragStartAngle := pi / 4\<rparr>)\<lparr>gizmoAccumulatedAngle := 0\<rparr>"
    using busy
    by (simp add: gizmoDragMove_def Let_def w' ringPressedWhileSpinning_facts rotateGroup_def)
  finally have "gizmoAccumulatedAngle (onPointerMove (1, 0) (Some (pi / 4)) None 50 ringPressedWhileSpinning) = 0"
    "blocks (onPointerMove (1, 0) (Some (pi / 4)) None 50 ringPressedWhileSpinning)
        = blocks ringPressedWhileSpinning"
    by simp_all
  with w wrapAngle_minus_pi ringPressedWhileSpinning_facts show ?thesis
    by simp
qed

subsection \<open>The floor after a group rotation\<close>

text \<open>
  The rotation half of the floor invariant: once a member of a rotated group has finished
  its animations, each of its cells is at world height zero or more.
\<close>

lemma uniformOffset_lifts:
  assumes "y \<in> set ys"
  shows "0 \<le> y + uniformOffset ys"
proof -
  have ne: "ys \<noteq> []"
    using assms by auto
  define m where "m = Min (set ys)"
  have le: "m \<le> y"
    unfolding m_def using assms by simp
  have "uniformOffset ys = (if m < 0 then - m else 0)"
    unfolding m_def uniformOffset_def using ne by (simp only: simp_thms if_True)
  with le show ?thesis
    by simp
qed

lemma settle_launched:
  assumes "\<not> animating b"
  shows "position (updateAnimation (now + ROTATION_DURATION) (launched axis now pivot nAxis target b)) = target"
    and "cells (updateAnimation (now + ROTATION_DURATION) (launched axis now pivot nAxis target b))
           = map (rotateCell (quarterTurn (normalizeVec axis))) (cells b)"
    and "\<not> animating (updateAnimation (now + ROTATION_DURATION) (launched axis now pivot nAxis target b))"
  using assms
  by (simp_all add: launched_def animating_def updateAnimation_def updateRotAnimation_def
      updatePosAnimation_def rotateBlock_def animatePositionTo_def ROTATION_DURATION_def Let_def)

lemma rotateGroup_keeps_floor:
  assumes "centerBlock s = Some c"
    and "\<not> list_ex (\<lambda>i. animating (blocks s ! i)) (selectedGroup s)"
    and "distinct (selectedGroup s)"
    and "\<forall>i\<in>set (selectedGroup s). i < length (blocks s)"
    and "k \<in> set (selectedGroup s)"
  shows "\<forall>cl\<in>set (cells (updateAnimation (now + ROTATION_DURATION) (blocks (rotateGroup axis now s) ! k))).
           0 \<le> fst (snd (position (updateAnimation (now + ROTATION_DURATION)
                                     (blocks (rotateGroup axis now s) ! k))))
                 + of_int (fst (snd cl))"
proof -
  let ?q = "quarterTurn (normalizeVec axis)"
  let ?ys = "rotatedGroupYs (blocks s) (selectedGroup s) c ?q"
  let ?base = "groupTarget (blocks s) c (position (blocks s ! c)) ?q k"
  let ?b = "blocks s ! k"
  have k: "k < length (blocks s)"
    using assms(4,5) by simp
  have still: "\<not> animating ?b"
    using assms(2,5) by (simp add: list_ex_iff)
  have eq: "blocks (rotateGroup axis now s) ! k
      = launched axis now (position (blocks s ! c)) (normalizeVec axis) (liftBy (uniformOffset ?ys) ?base) ?b"
    using rotateGroup_blocks [OF assms(1-4) k, of axis now] assms(5) by simp
  show ?thesis
  proof
    fix cl'
    assume "cl' \<in> set (cells (updateAnimation (now + ROTATION_DURATION) (blocks (rotateGroup axis now s) ! k)))"
    then obtain cl where cl: "cl \<in> set (cells ?b)" "cl' = rotateCell ?q cl"
      unfolding eq settle_launched(2) [OF still] by auto
    have "rotatedWorldY ?base ?q cl \<in> set ?ys"
      using cl(1) assms(5) by (auto simp: rotatedGroupYs_def)
    from uniformOffset_lifts [OF this]
    have "0 \<le> fst (snd (liftBy (uniformOffset ?ys) ?base)) + of_int (fst (snd cl'))"
      by (cases ?base) (simp add: rotatedWorldY_def liftBy_def cl(2))
    then show "0 \<le> fst (snd (position (updateAnimation (now + ROTATION_DURATION)
                                     (blocks (rotateGroup axis now s) ! k))))
                 + of_int (fst (snd cl'))"
      unfolding eq settle_launched(1) [OF still] .
  qed
qed

subsection \<open>Distinct cells and distinct ids in every reachable state\<close>

lemma inj_rotateCell:
  assumes "a \<in> set cardinals"
  shows "inj (rotateCell (quarterTurn a))"
proof (rule injI)
  fix c d
  assume "rotateCell (quarterTurn a) c = rotateCell (quarterTurn a) d"
  then have "rotateCell (quarterTurn a) (rotateCell (quarterTurn a) (rotateCell (quarterTurn a)
               (rotateCell (quarterTurn a) c)))
           = rotateCell (quarterTurn a) (rotateCell (quarterTurn a) (rotateCell (quarterTurn a)
               (rotateCell (quarterTurn a) d)))"
    by simp
  then show "c = d"
    by (simp only: rotateCell_four [OF assms])
qed

lemma smallCell_rotateCell:
  assumes "a \<in> set cardinals" and "smallCell c"
  shows "smallCell (rotateCell (quarterTurn a) c)"
proof -
  obtain x y z where c: "c = (x, y, z)" by (cases c)
  from assms(1) have "a = (1, 0, 0) \<or> a = (- 1, 0, 0) \<or> a = (0, 1, 0) \<or> a = (0, - 1, 0)
      \<or> a = (0, 0, 1) \<or> a = (0, 0, - 1)"
    by (simp add: cardinals_def)
  then show ?thesis
    using assms(2) unfolding c
    by (elim disjE) (simp_all add: rotateCell_cardinal smallCell_def)
qed

lemma keepsTidy_basic:
  "keepsTidy (setSelected v)" "keepsTidy snapToGrid"
  "keepsTidy (animatePositionTo target pivot ax now)" "keepsTidy (\<lambda>blk. blk\<lparr>position := p\<rparr>)"
  by (auto simp: keepsTidy_def tidy_def setSelected_def snapToGrid_def animatePositionTo_def
      split: prod.splits option.splits)

lemma keepsTidy_rotateBlock:
  assumes "axis \<in> set cardinals"
  shows "keepsTidy (rotateBlock axis now)"
  unfolding keepsTidy_def
proof (intro allI impI)
  fix b
  assume t: "tidy b"
  let ?r = "rotateCell (quarterTurn axis)"
  have "inj_on ?r (set (cells b))"
    by (rule inj_on_subset [OF inj_rotateCell [OF assms]]) simp
  with t have "distinct (map ?r (cells b))"
    by (simp add: tidy_def distinct_map)
  moreover from t have "list_all smallCell (map ?r (cells b))"
    by (simp add: tidy_def list_all_iff smallCell_rotateCell [OF assms])
  ultimately show "tidy (rotateBlock axis now b)"
    using t by (simp add: tidy_def rotateBlock_def Let_def normalize_cardinal [OF assms])
qed

lemma keepsTidy_updateAnimation: "keepsTidy (updateAnimation now)"
  by (auto simp: keepsTidy_def tidy_def updateAnimation_def updateRotAnimation_def Let_def
      split: option.splits)

lemma tidy_modify:
  assumes "keepsTidy f" and "list_all tidy bs"
  shows "list_all tidy (modify i f bs)"
proof (cases "i < length bs")
  case False
  then have "bs[i := f (bs ! i)] = bs"
    by (simp add: list_update_beyond not_less)
  with assms(2) show ?thesis by (simp add: modify_def)
next
  case True
  with assms have "tidy (f (bs ! i))"
    by (simp add: keepsTidy_def list_all_length)
  with assms(2) True show ?thesis
    by (auto simp: modify_def list_all_length nth_list_update)
qed

lemma tidy_fold_modify:
  "keepsTidy f \<Longrightarrow> list_all tidy bs \<Longrightarrow> list_all tidy (fold (\<lambda>i. modify i f) grp bs)"
  by (induction grp arbitrary: bs) (simp_all add: tidy_modify)

lemma tidy_map: "keepsTidy f \<Longrightarrow> list_all tidy bs \<Longrightarrow> list_all tidy (map f bs)"
  by (auto simp: keepsTidy_def list_all_iff)

lemma tidy_moveGroup: "list_all tidy bs \<Longrightarrow> list_all tidy (moveGroup starts delta grp bs)"
  by (induction grp arbitrary: bs)
    (auto simp: tidy_modify keepsTidy_basic split: option.splits prod.splits)

lemma tidy_launchStep:
  assumes "axis \<in> set cardinals" and "list_all tidy bs"
  shows "list_all tidy (snd (launchStep axis now pivot nAxis yOffset i (targets, bs)))"
proof (cases "targets i")
  case None
  with assms(2) show ?thesis by (simp add: launchStep_def)
next
  case (Some p)
  obtain px py pz where p: "p = (px, py, pz)" by (cases p)
  have "list_all tidy (modify i (rotateBlock axis now) bs)"
    by (rule tidy_modify [OF keepsTidy_rotateBlock [OF assms(1)] assms(2)])
  then show ?thesis
    by (simp add: launchStep_def Some p Let_def tidy_modify keepsTidy_basic)
qed

lemma tidy_launch_fold:
  assumes "axis \<in> set cardinals" and "list_all tidy (snd acc)"
  shows "list_all tidy (snd (fold (launchStep axis now pivot nAxis yOffset) grp acc))"
  using assms(2)
proof (induction grp arbitrary: acc)
  case Nil
  then show ?case by simp
next
  case (Cons i grp)
  obtain targets bs where acc: "acc = (targets, bs)" by (cases acc)
  from Cons.prems have "list_all tidy (snd (launchStep axis now pivot nAxis yOffset i acc))"
    unfolding acc by (simp add: tidy_launchStep [OF assms(1)])
  from Cons.IH [OF this] show ?case by simp
qed

lemma tidy_rotateGroup:
  "axis \<in> set cardinals \<Longrightarrow> list_all tidy (blocks s) \<Longrightarrow>
     list_all tidy (blocks (rotateGroup axis now s))"
  by (simp add: rotateGroup_def Let_def tidy_launch_fold split: option.splits)

lemma axisOk_same: "gizmoDragAxis s' = gizmoDragAxis s \<Longrightarrow> axisOk s' = axisOk s"
  by (simp add: axisOk_def)

lemma axisOk_None: "gizmoDragAxis s = None \<Longrightarrow> axisOk s"
  by (simp add: axisOk_def)

lemma axisOk_Some: "gizmoDragAxis s = Some a \<Longrightarrow> axisOk s = (a \<in> set cardinals)"
  by (simp add: axisOk_def)

lemma gizmoDragAxis_rotateGroup [simp]:
  "gizmoDragAxis (rotateGroup axis now s) = gizmoDragAxis s"
  by (simp add: rotateGroup_def Let_def split: option.splits)

lemma tidy_setGroupSelected: "list_all tidy bs \<Longrightarrow> list_all tidy (setGroupSelected v grp bs)"
  by (simp add: setGroupSelected_def tidy_fold_modify keepsTidy_basic)

lemma signed_cardinal:
  assumes "a \<in> set cardinals"
  shows "multiplyScalar a 1 \<in> set cardinals" and "multiplyScalar a (- 1) \<in> set cardinals"
proof -
  from assms have a: "a = (1, 0, 0) \<or> a = (- 1, 0, 0) \<or> a = (0, 1, 0) \<or> a = (0, - 1, 0)
      \<or> a = (0, 0, 1) \<or> a = (0, 0, - 1)"
    by (simp add: cardinals_def)
  from a show "multiplyScalar a 1 \<in> set cardinals"
    by (elim disjE) (simp_all add: multiplyScalar_def cardinals_def)
  from a show "multiplyScalar a (- 1) \<in> set cardinals"
    by (elim disjE) (simp_all add: multiplyScalar_def cardinals_def)
qed

lemma ring_cardinal: "getAxisForRing r \<in> set cardinals"
  by (cases r) (simp_all add: cardinals_def)

lemma snap_fold_member:
  "c0 \<in> set cs' \<Longrightarrow> set cs \<subseteq> set cs' \<Longrightarrow>
   snd (fold (\<lambda>c best. case fst best of
         None \<Rightarrow> (Some (vdot axis c), c)
       | Some bestDot \<Rightarrow> if vdot axis c > bestDot then (Some (vdot axis c), c) else best)
     cs (d, c0)) \<in> set cs'"
  by (induction cs arbitrary: d c0) (auto split: option.splits)

lemma snapToCardinal_cardinal: "snapToCardinal axis \<in> set cardinals"
  unfolding snapToCardinal_def
  by (rule snap_fold_member) (simp_all add: cardinals_def)

lemma axisOk_onPointerDown: "axisOk s \<Longrightarrow> axisOk (onPointerDown button client ringHit blockHit s)"
proof (cases "button = 0 \<and> gizmoVisible s \<and> centerBlock s \<noteq> None \<and> ringHit \<noteq> None")
  case True
  then obtain r angle where "ringHit = Some (r, angle)"
    by (cases ringHit) auto
  with True have "gizmoDragAxis (onPointerDown button client ringHit blockHit s) = Some (getAxisForRing r)"
    by (simp add: onPointerDown_def Let_def)
  then show ?thesis
    by (simp add: axisOk_Some ring_cardinal)
next
  case False
  then have "gizmoDragAxis (onPointerDown button client ringHit blockHit s) = gizmoDragAxis s"
    by (auto simp: onPointerDown_def Let_def split: option.splits)
  then show "axisOk s \<Longrightarrow> ?thesis"
    by (simp add: axisOk_def)
qed

lemma blocks_onPointerDown [simp]: "blocks (onPointerDown button client ringHit blockHit s) = blocks s"
  by (simp add: onPointerDown_def Let_def split: option.splits prod.splits)

lemma tidyState_onPointerDown:
  "tidyState s \<Longrightarrow> tidyState (onPointerDown button client ringHit blockHit s)"
  by (simp add: tidyState_def axisOk_onPointerDown)

lemma gizmoDragAxis_gizmoDragMove [simp]:
  "gizmoDragAxis (gizmoDragMove axis cur now s) = gizmoDragAxis s"
  by (simp add: gizmoDragMove_def Let_def)

lemma gizmoDragAxis_blockDragMove [simp]:
  "gizmoDragAxis (blockDragMove target p s) = gizmoDragAxis s"
  by (simp add: blockDragMove_def Let_def)

lemma gizmoDragAxis_startDrag [simp]:
  "gizmoDragAxis (startDrag b hit s) = gizmoDragAxis s"
  by (simp add: startDrag_def gizmoHide_def Let_def)

lemma gizmoDragAxis_onPointerMove [simp]:
  "gizmoDragAxis (onPointerMove client gizmoAngle dragHit now s) = gizmoDragAxis s"
  by (simp add: onPointerMove_def Let_def del: split_paired_All split: option.splits)

lemma tidy_gizmoDragMove:
  "axis \<in> set cardinals \<Longrightarrow> list_all tidy (blocks s) \<Longrightarrow>
     list_all tidy (blocks (gizmoDragMove axis cur now s))"
  by (simp add: gizmoDragMove_def Let_def tidy_rotateGroup signed_cardinal)

lemma tidy_blockDragMove:
  "list_all tidy (blocks s) \<Longrightarrow> list_all tidy (blocks (blockDragMove target p s))"
  by (simp add: blockDragMove_def Let_def tidy_moveGroup tidy_modify keepsTidy_basic)

lemma tidyState_onPointerMove:
  assumes "tidyState s"
  shows "tidyState (onPointerMove client gizmoAngle dragHit now s)"
proof -
  have "list_all tidy (blocks (onPointerMove client gizmoAngle dragHit now s))"
  proof (cases "gizmoDragAxis s")
    case None
    with assms show ?thesis
      by (simp add: tidyState_def onPointerMove_def Let_def tidy_blockDragMove
          split: option.splits)
  next
    case (Some a)
    with assms have "a \<in> set cardinals"
      by (simp add: tidyState_def axisOk_def)
    with assms Some show ?thesis
      by (simp add: tidyState_def onPointerMove_def Let_def tidy_gizmoDragMove tidy_blockDragMove
          del: split_paired_All split: option.splits)
  qed
  with assms show ?thesis
    by (simp add: tidyState_def axisOk_def)
qed

lemma after_show:
  assumes "getCenterCellWorldPos (blocks s ! c) = None \<Longrightarrow> P s"
    and "\<And>p. P (k (gizmoShow p s))"
  shows "P (andThen (showGizmoAt c s) k)"
  using assms by (cases "getCenterCellWorldPos (blocks s ! c)") (simp_all add: showGizmoAt_def)

lemma tidyState_gizmoShow: "tidyState (gizmoShow p s) = tidyState s"
  by (simp add: tidyState_def axisOk_def gizmoShow_def)

lemma tidyState_resetPointerState: "tidyState (resetPointerState s) = tidyState s"
  by (simp add: tidyState_def axisOk_def resetPointerState_def)

lemma tidyState_endBlockDrag:
  assumes "tidyState s"
  shows "tidyState (endBlockDrag s)"
proof -
  define s2 where "s2 = (let s1 = s\<lparr>isDragging := False\<rparr> in
      if isGroupDrag s1
      then s1\<lparr>blocks := fold (\<lambda>i. modify i snapToGrid) (selectedGroup s1) (blocks s1)\<rparr>
      else (case dragTarget s1 of
              Some t \<Rightarrow> s1\<lparr>blocks := modify t snapToGrid (blocks s1)\<rparr>
            | None \<Rightarrow> s1))"
  have "list_all tidy (blocks s2)" "gizmoDragAxis s2 = gizmoDragAxis s"
    using assms
    by (simp_all add: s2_def Let_def tidyState_def tidy_fold_modify tidy_modify keepsTidy_basic
        split: option.splits)
  with assms have t2: "tidyState s2"
    by (simp add: tidyState_def axisOk_def)
  have e: "endBlockDrag s = (case centerBlock s2 of
           Some c \<Rightarrow> andThen (showGizmoAt c s2) resetPointerState
         | None \<Rightarrow> resetPointerState s2)"
    by (simp only: endBlockDrag_def s2_def Let_def)
  show ?thesis
  proof (cases "centerBlock s2")
    case None
    with t2 show ?thesis by (simp add: e tidyState_resetPointerState)
  next
    case (Some c)
    have "tidyState (andThen (showGizmoAt c s2) resetPointerState)"
      by (rule after_show) (simp_all add: t2 tidyState_resetPointerState tidyState_gizmoShow)
    with Some show ?thesis by (simp add: e)
  qed
qed

lemma tidyState_selectGroupWithCenter:
  assumes "tidyState s"
  shows "tidyState (andThen (selectGroupWithCenter grp c s) resetPointerState)"
    and "tidyState (andThen (selectGroupWithCenter grp c s) (\<lambda>s'. s'))"
proof -
  define s3 where "s3 = (let s1 = s\<lparr>blocks := setGroupSelected False (selectedGroup s) (blocks s)\<rparr>;
          s2 = s1\<lparr>selectedGroup := grp, centerBlock := Some c\<rparr>
      in s2\<lparr>blocks := setGroupSelected True grp (blocks s2)\<rparr>)"
  have "list_all tidy (blocks s3)" "gizmoDragAxis s3 = gizmoDragAxis s"
    using assms by (simp_all add: s3_def Let_def tidyState_def tidy_setGroupSelected)
  with assms have t3: "tidyState s3"
    by (simp add: tidyState_def axisOk_def)
  have e: "selectGroupWithCenter grp c s = showGizmoAt c s3"
    by (simp only: selectGroupWithCenter_def s3_def Let_def)
  show "tidyState (andThen (selectGroupWithCenter grp c s) resetPointerState)"
    unfolding e by (rule after_show) (simp_all add: t3 tidyState_resetPointerState tidyState_gizmoShow)
  show "tidyState (andThen (selectGroupWithCenter grp c s) (\<lambda>s'. s'))"
    unfolding e by (rule after_show) (simp_all add: t3 tidyState_gizmoShow)
qed

lemma tidyState_deselectAll: "tidyState s \<Longrightarrow> tidyState (deselectAll s)"
  by (simp add: tidyState_def axisOk_def deselectAll_def gizmoHide_def tidy_setGroupSelected)

lemma tidyState_onPointerUp:
  assumes "tidyState s"
  shows "tidyState (onPointerUp button client ringHit blockHit s)"
proof -
  have "tidyState (s\<lparr>isGizmoDragging := False, gizmoDragAxis := None, gizmoDragPlane := False\<rparr>)"
    using assms by (simp add: tidyState_def axisOk_def)
  with assms show ?thesis
    by (simp add: onPointerUp_def tidyState_endBlockDrag tidyState_selectGroupWithCenter
        tidyState_deselectAll tidyState_resetPointerState split: option.splits)
qed

lemma tidyState_onDblClick:
  assumes "tidyState s"
  shows "tidyState (onDblClick blockHit s)"
proof (cases blockHit)
  case None
  with assms show ?thesis by (simp add: onDblClick_def)
next
  case (Some b)
  define s3 where "s3 = (let s1 = s\<lparr>blocks := setGroupSelected False (selectedGroup s) (blocks s)\<rparr>;
          s2 = s1\<lparr>selectedGroup := [b], centerBlock := Some b\<rparr>
      in s2\<lparr>blocks := modify b (setSelected True) (blocks s2)\<rparr>)"
  have "list_all tidy (blocks s3)" "gizmoDragAxis s3 = gizmoDragAxis s"
    using assms
    by (simp_all add: s3_def Let_def tidyState_def tidy_setGroupSelected tidy_modify keepsTidy_basic)
  with assms have t3: "tidyState s3"
    by (simp add: tidyState_def axisOk_def)
  have e: "onDblClick blockHit s = andThen (showGizmoAt b s3) (\<lambda>s'. s')"
    by (simp only: onDblClick_def Some s3_def Let_def option.case)
  show ?thesis
    unfolding e by (rule after_show) (simp_all add: t3 tidyState_gizmoShow)
qed

lemma tidyState_flipBlock: "tidyState s \<Longrightarrow> tidyState (flipBlock dir camDir now s)"
  by (simp add: flipBlock_def tidyState_def tidy_rotateGroup snapToCardinal_cardinal axisOk_def)

lemma tidyState_selectBlockById: "tidyState s \<Longrightarrow> tidyState (selectBlockById i s)"
  by (simp add: selectBlockById_def tidyState_selectGroupWithCenter split: option.splits)

lemma tidyState_update:
  assumes "tidyState s"
  shows "tidyState (update now s)"
proof -
  have "blocks (update now s) = map (updateAnimation now) (blocks s)"
    "gizmoDragAxis (update now s) = gizmoDragAxis s"
    by (simp_all add: update_def Let_def split: option.splits)
  with assms show ?thesis
    by (simp add: tidyState_def tidy_map keepsTidy_updateAnimation axisOk_def)
qed

lemma tidyState_step: "tidyState s \<Longrightarrow> tidyState (step s e)"
  by (cases e)
    (simp_all add: tidyState_onPointerDown tidyState_onPointerMove tidyState_onPointerUp
      tidyState_onDblClick tidyState_flipBlock tidyState_selectBlockById tidyState_update)

lemma tidyState_run: "tidyState s \<Longrightarrow> tidyState (run s es)"
  unfolding run_def by (induction es arbitrary: s) (simp_all add: tidyState_step)

lemma tidyState_initialState: "tidyState initialState"
  by (simp add: tidyState_def axisOk_def tidy_def smallCell_def initialState_def
      newInteractionManager_def BLOCK_DEFINITIONS_def startPositions_def placedBlock_def
      newBlock_def snapToGrid_def)

lemma reachable_cells_distinct: "\<forall>b\<in>set (blocks (run initialState es)). distinct (cells b)"
  using tidyState_run [OF tidyState_initialState, of es]
  by (simp add: tidyState_def tidy_def list_all_iff)

lemma reachable_cells_small:
  "\<forall>b\<in>set (blocks (run initialState es)). \<forall>c\<in>set (cells b). smallCell c"
  using tidyState_run [OF tidyState_initialState, of es]
  by (simp add: tidyState_def tidy_def list_all_iff)

lemma blockId_methods [simp]:
  "blockId (setSelected v b) = blockId b"
  "blockId (snapToGrid b) = blockId b"
  "blockId (animatePositionTo target pivot ax now b) = blockId b"
  "blockId (rotateBlock axis now b) = blockId b"
  by (simp_all add: setSelected_def snapToGrid_def animatePositionTo_def rotateBlock_def Let_def
      split: prod.splits)

lemma blockId_updateAnimation [simp]: "blockId (updateAnimation now b) = blockId b"
  by (cases "pendingCells (updatePosAnimation now b)")
    (simp_all add: updateAnimation_def updateRotAnimation_def Let_def)

lemma ids_modify:
  assumes "\<And>b. blockId (f b) = blockId b"
  shows "map blockId (modify i f bs) = map blockId bs"
proof (cases "i < length bs")
  case False
  then show ?thesis
    by (simp add: modify_def list_update_beyond not_less)
next
  case True
  then have "(map blockId bs)[i := blockId (bs ! i)] = map blockId bs"
    by (simp add: list_update_same_conv)
  with assms show ?thesis
    by (simp add: modify_def map_update)
qed

lemma ids_fold_modify:
  "(\<And>b. blockId (f b) = blockId b) \<Longrightarrow>
     map blockId (fold (\<lambda>i. modify i f) grp bs) = map blockId bs"
  by (induction grp arbitrary: bs) (simp_all add: ids_modify)

lemma ids_moveGroup: "map blockId (moveGroup starts delta grp bs) = map blockId bs"
proof -
  obtain dx dy dz where d: "delta = (dx, dy, dz)" by (cases delta)
  show ?thesis
    unfolding d
    by (induction grp arbitrary: bs) (simp_all add: ids_modify split: option.splits prod.splits)
qed

lemma ids_launchStep:
  "map blockId (snd (launchStep axis now pivot nAxis yOffset i (targets, bs))) = map blockId bs"
proof (cases "targets i")
  case None
  then show ?thesis by (simp add: launchStep_def)
next
  case (Some p)
  obtain px py pz where p: "p = (px, py, pz)" by (cases p)
  show ?thesis
    by (simp add: launchStep_def Some p Let_def ids_modify)
qed

lemma ids_launch_fold:
  "map blockId (snd (fold (launchStep axis now pivot nAxis yOffset) grp acc)) = map blockId (snd acc)"
proof (induction grp arbitrary: acc)
  case Nil
  then show ?case by simp
next
  case (Cons i grp)
  obtain targets bs where acc: "acc = (targets, bs)" by (cases acc)
  show ?case
    by (simp add: Cons.IH) (simp add: acc ids_launchStep)
qed

lemma ids_rotateGroup [simp]:
  "map blockId (blocks (rotateGroup axis now s)) = map blockId (blocks s)"
  by (simp add: rotateGroup_def Let_def ids_launch_fold split: option.splits)

lemma ids_setGroupSelected [simp]:
  "map blockId (setGroupSelected v grp bs) = map blockId bs"
  by (simp add: setGroupSelected_def ids_fold_modify)

lemma ids_onPointerMove:
  "map blockId (blocks (onPointerMove client gizmoAngle dragHit now s)) = map blockId (blocks s)"
  by (simp add: onPointerMove_def gizmoDragMove_def blockDragMove_def Let_def ids_moveGroup ids_modify
      split: option.splits)

lemma ids_endBlockDrag: "map blockId (blocks (endBlockDrag s)) = map blockId (blocks s)"
  by (simp add: endBlockDrag_def Let_def blocks_andThen_showGizmoAt ids_fold_modify ids_modify
      split: option.splits)

lemma ids_selectGroupWithCenter:
  assumes "\<And>s'. blocks (k s') = blocks s'"
  shows "map blockId (blocks (andThen (selectGroupWithCenter grp c s) k)) = map blockId (blocks s)"
  using assms
  by (simp add: selectGroupWithCenter_def Let_def blocks_andThen_showGizmoAt)

lemma ids_deselectAll: "map blockId (blocks (deselectAll s)) = map blockId (blocks s)"
  by (simp add: deselectAll_def gizmoHide_def)

lemma ids_onPointerUp:
  "map blockId (blocks (onPointerUp button client ringHit blockHit s)) = map blockId (blocks s)"
  by (simp add: onPointerUp_def ids_endBlockDrag ids_selectGroupWithCenter ids_deselectAll
      split: option.splits)

lemma ids_onDblClick: "map blockId (blocks (onDblClick blockHit s)) = map blockId (blocks s)"
  by (simp add: onDblClick_def Let_def blocks_andThen_showGizmoAt ids_modify split: option.splits)

lemma ids_selectBlockById: "map blockId (blocks (selectBlockById i s)) = map blockId (blocks s)"
  by (simp add: selectBlockById_def ids_selectGroupWithCenter split: option.splits)

lemma ids_update: "map blockId (blocks (update now s)) = map blockId (blocks s)"
  by (simp add: update_def Let_def split: option.splits)

lemma ids_step: "map blockId (blocks (step s e)) = map blockId (blocks s)"
  by (cases e)
    (simp_all add: ids_onPointerMove ids_onPointerUp ids_onDblClick flipBlock_def
      ids_selectBlockById ids_update)

lemma ids_run: "map blockId (blocks (run s es)) = map blockId (blocks s)"
  unfolding run_def by (induction es arbitrary: s) (simp_all add: ids_step)

lemma reachable_ids_distinct: "distinct (map blockId (blocks (run initialState es)))"
  unfolding ids_run
  by (simp add: initialState_def newInteractionManager_def BLOCK_DEFINITIONS_def
      startPositions_def placedBlock_def newBlock_def)

subsection \<open>Collision detection in reachable states\<close>

lemma lone_block_absent:
  assumes eq: "detectCollisions bs = collidingIds bs"
    and ids: "distinct (map blockId bs)"
    and i: "i < length bs" "\<forall>j. j < length bs \<and> j \<noteq> i \<longrightarrow> \<not> sharesCell bs i j"
  shows "blockId (bs ! i) \<notin> detectCollisions bs"
proof
  assume "blockId (bs ! i) \<in> detectCollisions bs"
  then obtain i' j where i': "i' < length bs" "j < length bs" "j \<noteq> i'" "sharesCell bs i' j"
      "blockId (bs ! i) = blockId (bs ! i')"
    unfolding eq collidingIds_def by blast
  have "map blockId bs ! i = map blockId bs ! i'"
    using i i' by simp
  then have "i = i'"
    using nth_eq_iff_index_eq [OF ids, of i i'] i(1) i'(1) by simp
  with i i' show False by blast
qed

lemma impE_conj1: "A \<longrightarrow> B \<and> C \<Longrightarrow> A \<longrightarrow> B"
  by blast

lemma pushes_zip:
  "pushes bs = concat (map (\<lambda>(cs, i). map (\<lambda>c. (c, i)) cs)
     (zip (map getWorldCellPositions bs) (map blockId bs)))"
  by (induction bs) (simp_all add: pushes_def)

lemma dragOntoNeighbour_cells:
  "map getWorldCellPositions (blocks (run initialState dragOntoNeighbour)) =
    [[(0, 0, 0), (- 1, 0, 0), (0, 0, 1)],
     [(1, 0, 0), (0, 0, 0), (1, 0, 1), (2, 0, 1)],
     [(- 3, 0, 0), (- 4, 0, 0), (- 2, 0, 0), (- 2, 0, 1)],
     [(0, 0, 3), (- 1, 0, 3), (1, 0, 3), (0, 0, 4)],
     [(0, 0, - 3), (- 1, 0, - 3), (0, 0, - 2), (0, 1, - 3)],
     [(3, 0, 3), (2, 0, 3), (3, 0, 4), (2, 1, 3)],
     [(- 3, 0, - 3), (- 4, 0, - 3), (- 3, 0, - 2), (- 3, 1, - 2)]]"
  by (simp add: dragOntoNeighbour_def engine_defs block_defs Let_def)

text \<open>
  Claim C2. In every state a session can reach from the start, \<^verbatim>\<open>detectCollisions\<close>
  returns exactly the ids of the blocks that share an occupied world cell with another
  block, and a block that shares no cell with any other block is not in the result. Both
  hold as well of any list of blocks none of which lists a cell offset twice, the second
  when the ids are distinct. In the scenario of the two blocks with ids 0 and 1 the result
  is \<open>{0, 1}\<close>.
\<close>

theorem detectCollisions_exact:
  "(let rs = blocks (run initialState es) in
      detectCollisions rs = collidingIds rs
      \<and> (\<forall>i. i < length rs \<and> (\<forall>j. j < length rs \<and> j \<noteq> i \<longrightarrow> \<not> sharesCell rs i j)
             \<longrightarrow> blockId (rs ! i) \<notin> detectCollisions rs))
   \<and> ((\<forall>b\<in>set bs. distinct (cells b)) \<longrightarrow>
        detectCollisions bs = collidingIds bs
        \<and> (distinct (map blockId bs) \<longrightarrow>
             (\<forall>i. i < length bs \<and> (\<forall>j. j < length bs \<and> j \<noteq> i \<longrightarrow> \<not> sharesCell bs i j)
                \<longrightarrow> blockId (bs ! i) \<notin> detectCollisions bs)))
   \<and> detectCollisions [scenarioA, scenarioB] = {0, 1}"
proof -
  define rs where "rs = blocks (run initialState es)"
  have eq: "detectCollisions rs = collidingIds rs"
    unfolding rs_def by (rule detectCollisions_collidingIds [OF reachable_cells_distinct])
  have ids: "distinct (map blockId rs)"
    unfolding rs_def by (rule reachable_ids_distinct)
  have reach: "detectCollisions rs = collidingIds rs
      \<and> (\<forall>i. i < length rs \<and> (\<forall>j. j < length rs \<and> j \<noteq> i \<longrightarrow> \<not> sharesCell rs i j)
             \<longrightarrow> blockId (rs ! i) \<notin> detectCollisions rs)"
    using eq lone_block_absent [OF eq ids] by blast
  have gen: "detectCollisions bs = collidingIds bs
        \<and> (distinct (map blockId bs) \<longrightarrow>
             (\<forall>i. i < length bs \<and> (\<forall>j. j < length bs \<and> j \<noteq> i \<longrightarrow> \<not> sharesCell bs i j)
                \<longrightarrow> blockId (bs ! i) \<notin> detectCollisions bs))"
    if d: "\<forall>b\<in>set bs. distinct (cells b)"
  proof -
    have e: "detectCollisions bs = collidingIds bs"
      by (rule detectCollisions_collidingIds [OF d])
    then show ?thesis
      using lone_block_absent [OF e] by blast
  qed
  from reach gen scenario_value show ?thesis
    unfolding rs_def Let_def by blast
qed

theorem detectCollisions_exact_witness:
  "detectCollisions (blocks (run initialState dragOntoNeighbour))
     = collidingIds (blocks (run initialState dragOntoNeighbour))
   \<and> detectCollisions (blocks (run initialState dragOntoNeighbour)) = {0, 1}
   \<and> blockId (blocks (run initialState dragOntoNeighbour) ! 4)
        \<notin> detectCollisions (blocks (run initialState dragOntoNeighbour))
   \<and> list_all (\<lambda>b. distinct (cells b)) [scenarioA, scenarioB]
   \<and> distinct (map blockId [scenarioA, scenarioB])
   \<and> detectCollisions [scenarioA, scenarioB] = collidingIds [scenarioA, scenarioB]
   \<and> detectCollisions [scenarioA, scenarioB] = {0, 1}"
proof -
  let ?rs = "blocks (run initialState dragOntoNeighbour)"
  have len: "length ?rs = 7"
    using arg_cong [OF dragOntoNeighbour_cells, of length] by simp
  have at: "getWorldCellPositions (?rs ! k) = map getWorldCellPositions ?rs ! k" if "k < 7" for k
    using that len by simp
  have lone: "\<forall>j. j < length ?rs \<and> j \<noteq> 4 \<longrightarrow> \<not> sharesCell ?rs 4 j"
  proof (intro allI impI)
    fix j
    assume j: "j < length ?rs \<and> j \<noteq> 4"
    then have "j = 0 \<or> j = 1 \<or> j = 2 \<or> j = 3 \<or> j = 5 \<or> j = 6"
      unfolding len by arith
    then show "\<not> sharesCell ?rs 4 j"
      unfolding sharesCell_def
      by (elim disjE) (simp_all add: at dragOntoNeighbour_cells)
  qed
  have ids: "map blockId ?rs = [0, 1, 2, 3, 4, 5, 6]"
    unfolding ids_run
    by (simp add: initialState_def newInteractionManager_def BLOCK_DEFINITIONS_def
        startPositions_def placedBlock_def newBlock_def)
  have four: "blockId (?rs ! 4) = 4"
    using arg_cong [OF ids, of "\<lambda>xs. xs ! 4"] len by simp
  have h: "\<forall>b\<in>set [scenarioA, scenarioB]. distinct (cells b)"
    by (simp add: scenarioA_def scenarioB_def newBlock_def)
  have hi: "distinct (map blockId [scenarioA, scenarioB])"
    by (simp add: scenarioA_def scenarioB_def newBlock_def)
  note t = detectCollisions_exact [of dragOntoNeighbour "[scenarioA, scenarioB]", unfolded Let_def]
  from t have r1: "detectCollisions ?rs = collidingIds ?rs"
    by (rule conjunct1 [THEN conjunct1])
  from t have r2: "4 < length ?rs \<and> (\<forall>j. j < length ?rs \<and> j \<noteq> 4 \<longrightarrow> \<not> sharesCell ?rs 4 j)
      \<longrightarrow> blockId (?rs ! 4) \<notin> detectCollisions ?rs"
    by (rule conjunct1 [THEN conjunct2, THEN spec])
  from r2 lone len have r3: "blockId (?rs ! 4) \<notin> detectCollisions ?rs"
    by simp
  from t have "(\<forall>b\<in>set [scenarioA, scenarioB]. distinct (cells b)) \<longrightarrow>
      detectCollisions [scenarioA, scenarioB] = collidingIds [scenarioA, scenarioB]"
    by (rule conjunct2 [THEN conjunct1, THEN impE_conj1])
  with h have r4: "detectCollisions [scenarioA, scenarioB] = collidingIds [scenarioA, scenarioB]"
    by (rule mp [rotated])
  from t have r5: "detectCollisions [scenarioA, scenarioB] = {0, 1}"
    by (rule conjunct2 [THEN conjunct2])
  have "pushes ?rs = concat (map (\<lambda>(cs, i). map (\<lambda>c. (c, i)) cs)
      (zip (map getWorldCellPositions ?rs) (map blockId ?rs)))"
    by (rule pushes_zip)
  then have "detectCollisions ?rs = {0, 1}"
    unfolding dragOntoNeighbour_cells ids
    by (simp add: detectCollisions_def buildCellMap_def buildCellMap_pushes insert_commute)
  with r1 r3 r4 r5 h hi show ?thesis
    by simp
qed

subsection \<open>The selection group in every reachable state\<close>

lemma bfsLoop_wellformed:
  "distinct v \<Longrightarrow> set v \<subseteq> {..<length bs} \<Longrightarrow>
     distinct (bfsLoop bs v q) \<and> set (bfsLoop bs v q) \<subseteq> {..<length bs}"
proof (induction bs v q rule: bfsLoop.induct)
  case (1 bs visited)
  then show ?case by simp
next
  case (2 bs visited current queue)
  let ?new = "filter (\<lambda>w. w \<notin> set visited \<and> areAdjacent (bs ! current) (bs ! w)) [0..<length bs]"
  have scan: "scanBlocks bs current [0..<length bs] (visited, queue) = (visited @ ?new, queue @ ?new)"
    by (simp add: scanBlocks_filter)
  have d: "distinct (visited @ ?new)"
    using "2.prems"(1) by auto
  have r: "set (visited @ ?new) \<subseteq> {..<length bs}"
    using "2.prems"(2) by auto
  from "2.IH" [OF scan [symmetric] d r] show ?case
    by (simp add: scan)
qed

lemma findConnectedBlocks_wellformed:
  assumes "seed < length bs"
  shows "distinct (findConnectedBlocks bs seed)"
    and "\<forall>i\<in>set (findConnectedBlocks bs seed). i < length bs"
  using bfsLoop_wellformed [of "[seed]" bs "[seed]"] assms
  by (auto simp: findConnectedBlocks_def)

lemma groupOk_gizmoShow [simp]: "groupOk n (gizmoShow p s) = groupOk n s"
  by (simp add: groupOk_def gizmoShow_def)

lemma groupOk_resetPointerState [simp]: "groupOk n (resetPointerState s) = groupOk n s"
  by (simp add: groupOk_def resetPointerState_def)

lemma selectedGroup_rotateGroup [simp]:
  "selectedGroup (rotateGroup axis now s) = selectedGroup s"
  by (simp add: rotateGroup_def Let_def split: option.splits)

lemma selectedGroup_onPointerDown [simp]:
  "selectedGroup (onPointerDown button client ringHit blockHit s) = selectedGroup s"
  by (simp add: onPointerDown_def Let_def split: option.splits prod.splits)

lemma selectedGroup_gizmoDragMove [simp]:
  "selectedGroup (gizmoDragMove axis cur now s) = selectedGroup s"
  by (simp add: gizmoDragMove_def Let_def)

lemma selectedGroup_blockDragMove [simp]:
  "selectedGroup (blockDragMove target p s) = selectedGroup s"
  by (simp add: blockDragMove_def Let_def)

lemma selectedGroup_startDrag [simp]:
  "selectedGroup (startDrag b hit s) = selectedGroup s"
  by (simp add: startDrag_def gizmoHide_def Let_def)

lemma selectedGroup_onPointerMove [simp]:
  "selectedGroup (onPointerMove client gizmoAngle dragHit now s) = selectedGroup s"
  by (simp add: onPointerMove_def Let_def del: split_paired_All split: option.splits)

lemma selectedGroup_update [simp]: "selectedGroup (update now s) = selectedGroup s"
  by (simp add: update_def Let_def split: option.splits)

lemma groupOk_endBlockDrag:
  assumes "groupOk n s"
  shows "groupOk n (endBlockDrag s)"
proof -
  define s2 where "s2 = (let s1 = s\<lparr>isDragging := False\<rparr> in
      if isGroupDrag s1
      then s1\<lparr>blocks := fold (\<lambda>i. modify i snapToGrid) (selectedGroup s1) (blocks s1)\<rparr>
      else (case dragTarget s1 of
              Some t \<Rightarrow> s1\<lparr>blocks := modify t snapToGrid (blocks s1)\<rparr>
            | None \<Rightarrow> s1))"
  have "selectedGroup s2 = selectedGroup s"
    by (simp add: s2_def Let_def split: option.splits)
  with assms have g2: "groupOk n s2"
    by (simp add: groupOk_def)
  have e: "endBlockDrag s = (case centerBlock s2 of
           Some c \<Rightarrow> andThen (showGizmoAt c s2) resetPointerState
         | None \<Rightarrow> resetPointerState s2)"
    by (simp only: endBlockDrag_def s2_def Let_def)
  show ?thesis
  proof (cases "centerBlock s2")
    case None
    with g2 show ?thesis by (simp add: e)
  next
    case (Some c)
    have "groupOk n (andThen (showGizmoAt c s2) resetPointerState)"
      by (rule after_show [where P = "groupOk n"]) (simp_all add: g2)
    with Some show ?thesis by (simp add: e)
  qed
qed

lemma groupOk_selectGroupWithCenter:
  assumes "distinct grp" and "\<forall>i\<in>set grp. i < n"
  shows "groupOk n (andThen (selectGroupWithCenter grp c s) resetPointerState)"
    and "groupOk n (andThen (selectGroupWithCenter grp c s) (\<lambda>s'. s'))"
proof -
  define s3 where "s3 = (let s1 = s\<lparr>blocks := setGroupSelected False (selectedGroup s) (blocks s)\<rparr>;
          s2 = s1\<lparr>selectedGroup := grp, centerBlock := Some c\<rparr>
      in s2\<lparr>blocks := setGroupSelected True grp (blocks s2)\<rparr>)"
  have "selectedGroup s3 = grp"
    by (simp add: s3_def Let_def)
  with assms have g3: "groupOk n s3"
    by (simp add: groupOk_def)
  have e: "selectGroupWithCenter grp c s = showGizmoAt c s3"
    by (simp only: selectGroupWithCenter_def s3_def Let_def)
  show "groupOk n (andThen (selectGroupWithCenter grp c s) resetPointerState)"
    unfolding e by (rule after_show [where P = "groupOk n"]) (simp_all add: g3)
  show "groupOk n (andThen (selectGroupWithCenter grp c s) (\<lambda>s'. s'))"
    unfolding e by (rule after_show [where P = "groupOk n"]) (simp_all add: g3)
qed

lemma groupOk_deselectAll: "groupOk n (deselectAll s)"
  by (simp add: groupOk_def deselectAll_def gizmoHide_def)

lemma groupOk_onPointerUp:
  assumes "groupOk n s" and "gizmoInv n s" and "length (blocks s) = n"
  shows "groupOk n (onPointerUp button client ringHit blockHit s)"
proof -
  have "groupOk n (s\<lparr>isGizmoDragging := False, gizmoDragAxis := None, gizmoDragPlane := False\<rparr>)"
    using assms(1) by (simp add: groupOk_def)
  moreover have "groupOk n (andThen (selectGroupWithCenter (findConnectedBlocks (blocks s) b) b s)
      resetPointerState)" if "pendingBlock s = Some b" for b
  proof -
    from that assms(2,3) have "b < length (blocks s)"
      by (simp add: gizmoInv_def)
    from findConnectedBlocks_wellformed [OF this] assms(3) show ?thesis
      by (intro groupOk_selectGroupWithCenter) simp_all
  qed
  ultimately show ?thesis
    using assms(1)
    by (simp add: onPointerUp_def groupOk_endBlockDrag groupOk_deselectAll split: option.splits)
qed

lemma groupOk_onDblClick:
  assumes "groupOk n s" and "eventOk n (DblClick blockHit)"
  shows "groupOk n (onDblClick blockHit s)"
proof (cases blockHit)
  case None
  with assms(1) show ?thesis by (simp add: onDblClick_def)
next
  case (Some b)
  with assms(2) have b: "b < n"
    by (simp add: eventOk_def)
  define s3 where "s3 = (let s1 = s\<lparr>blocks := setGroupSelected False (selectedGroup s) (blocks s)\<rparr>;
          s2 = s1\<lparr>selectedGroup := [b], centerBlock := Some b\<rparr>
      in s2\<lparr>blocks := modify b (setSelected True) (blocks s2)\<rparr>)"
  have "selectedGroup s3 = [b]"
    by (simp add: s3_def Let_def)
  with b have g3: "groupOk n s3"
    by (simp add: groupOk_def)
  have e: "onDblClick blockHit s = andThen (showGizmoAt b s3) (\<lambda>s'. s')"
    by (simp only: onDblClick_def Some s3_def Let_def option.case)
  show ?thesis
    unfolding e by (rule after_show [where P = "groupOk n"]) (simp_all add: g3)
qed

lemma groupOk_selectBlockById:
  assumes "groupOk n s" and "length (blocks s) = n"
  shows "groupOk n (selectBlockById i s)"
proof (cases "findBlockById i (blocks s)")
  case None
  with assms(1) show ?thesis by (simp add: selectBlockById_def)
next
  case (Some b)
  from findConnectedBlocks_wellformed [OF findBlockById_range [OF Some]] assms(2)
  have "groupOk n (andThen (selectGroupWithCenter (findConnectedBlocks (blocks s) b) b s) (\<lambda>s'. s'))"
    by (intro groupOk_selectGroupWithCenter) simp_all
  with Some show ?thesis
    by (simp add: selectBlockById_def)
qed

lemma groupOk_step:
  assumes "groupOk n s" and "gizmoInv n s" and "length (blocks s) = n" and "eventOk n e"
  shows "groupOk n (step s e)"
proof (cases e)
  case (PointerUp button client ringHit blockHit)
  with assms show ?thesis by (simp add: groupOk_onPointerUp)
next
  case (DblClick blockHit)
  with assms show ?thesis by (simp add: groupOk_onDblClick)
next
  case (SelectBlockById i)
  with assms show ?thesis by (simp add: groupOk_selectBlockById)
qed (use assms(1) in \<open>simp_all add: groupOk_def flipBlock_def\<close>)

lemma groupOk_run:
  assumes "groupOk (length sh) s" and "gizmoInv (length sh) s" and "shaped sh (blocks s)"
    and "populated sh" and "list_all (eventOk (length sh)) es"
  shows "groupOk (length sh) (run s es)"
  using assms
proof (induction es arbitrary: s)
  case Nil
  then show ?case by (simp add: run_def)
next
  case (Cons e es)
  from Cons.prems(3) have len: "length (blocks s) = length sh"
    by (auto simp: shaped_def)
  have "groupOk (length sh) (step s e)" "gizmoInv (length sh) (step s e)"
    "shaped sh (blocks (step s e))"
    using Cons.prems len by (simp_all add: groupOk_step gizmoInv_step shaped_step)
  from Cons.IH [OF this Cons.prems(4)] Cons.prems(5) show ?case
    by (simp add: run_def)
qed

lemma reachable_group_wellformed:
  assumes "list_all (eventOk (length (blocks initialState))) es"
  shows "distinct (selectedGroup (run initialState es))"
    and "\<forall>i\<in>set (selectedGroup (run initialState es)). i < length (blocks (run initialState es))"
proof -
  let ?sh = "map (\<lambda>d. length (snd d)) BLOCK_DEFINITIONS"
  have n: "length ?sh = length (blocks initialState)"
    by (simp add: length_initial_blocks BLOCK_DEFINITIONS_def)
  have ok: "list_all (eventOk (length ?sh)) es"
    using assms unfolding n .
  have "groupOk (length ?sh) initialState"
    by (simp add: groupOk_def initialState_def newInteractionManager_def)
  then have g: "groupOk (length ?sh) (run initialState es)"
    by (intro groupOk_run gizmoInv_initialState shaped_initialState populated_catalog ok)
  have "length (blocks (run initialState es)) = length (blocks initialState)"
    using arg_cong [OF ids_run [of initialState es], of length] by simp
  with g n show "distinct (selectedGroup (run initialState es))"
    and "\<forall>i\<in>set (selectedGroup (run initialState es)). i < length (blocks (run initialState es))"
    by (simp_all add: groupOk_def)
qed

subsection \<open>Rotation in double precision\<close>

lemma approx_exact: "\<bar>x\<bar> \<le> m \<Longrightarrow> approx 0 m x x"
  by (simp add: approx_def)

lemma approx_add:
  "approx ea ma a' a \<Longrightarrow> approx eb mb b' b \<Longrightarrow> approx (ea + eb) (ma + mb) (a' + b') (a + b)"
  unfolding approx_def by arith

lemma approx_sub:
  "approx ea ma a' a \<Longrightarrow> approx eb mb b' b \<Longrightarrow> approx (ea + eb) (ma + mb) (a' - b') (a - b)"
  unfolding approx_def by arith

lemma approx_mul:
  assumes "approx ea ma a' a" and "approx eb mb b' b"
  shows "approx (ea * mb + eb * ma + ea * eb) (ma * mb) (a' * b') (a * b)"
proof -
  from assms have A: "\<bar>a' - a\<bar> \<le> ea" "\<bar>a\<bar> \<le> ma" and B: "\<bar>b' - b\<bar> \<le> eb" "\<bar>b\<bar> \<le> mb"
    by (simp_all add: approx_def)
  have "a' * b' - a * b = (a' - a) * b + (b' - b) * a + (a' - a) * (b' - b)"
    by (simp add: algebra_simps)
  moreover have "\<bar>X + Y + Z\<bar> \<le> \<bar>X\<bar> + \<bar>Y\<bar> + \<bar>Z\<bar>" for X Y Z :: real
    by arith
  ultimately have "\<bar>a' * b' - a * b\<bar> \<le> \<bar>(a' - a) * b\<bar> + \<bar>(b' - b) * a\<bar> + \<bar>(a' - a) * (b' - b)\<bar>"
    by (simp only:)
  also have "\<dots> = \<bar>a' - a\<bar> * \<bar>b\<bar> + \<bar>b' - b\<bar> * \<bar>a\<bar> + \<bar>a' - a\<bar> * \<bar>b' - b\<bar>"
    by (simp add: abs_mult)
  also have "\<dots> \<le> ea * mb + eb * ma + ea * eb"
    using A B by (intro add_mono mult_mono) auto
  finally have "\<bar>a' * b' - a * b\<bar> \<le> ea * mb + eb * ma + ea * eb" .
  moreover have "\<bar>a * b\<bar> \<le> ma * mb"
    unfolding abs_mult using A B by (intro mult_mono) auto
  ultimately show ?thesis
    by (simp add: approx_def)
qed

lemma approx_rnd:
  assumes fm: "floatModel F" and x: "approx e m x' x"
    and e': "e + (m + e) / 2 ^ 52 + 1 / 2 ^ 60 \<le> e'" and m': "m \<le> m'"
    and dom: "m + e \<le> 2 ^ 60"
  shows "approx e' m' (rnd F x') x"
proof -
  from x have xe: "\<bar>x' - x\<bar> \<le> e" and xm: "\<bar>x\<bar> \<le> m"
    by (simp_all add: approx_def)
  then have b: "\<bar>x'\<bar> \<le> m + e"
    by arith
  with dom have "\<bar>x'\<bar> \<le> 2 ^ 60"
    by simp
  with fm have "\<bar>rnd F x' - x'\<bar> \<le> \<bar>x'\<bar> / 2 ^ 52 + 1 / 2 ^ 60"
    by (simp add: floatModel_def)
  also have "\<dots> \<le> (m + e) / 2 ^ 52 + 1 / 2 ^ 60"
    using b by (simp add: divide_right_mono)
  finally have "\<bar>rnd F x' - x'\<bar> \<le> (m + e) / 2 ^ 52 + 1 / 2 ^ 60" .
  with xe e' have "\<bar>rnd F x' - x\<bar> \<le> e'"
    by arith
  with xm m' show ?thesis
    by (simp add: approx_def)
qed

lemma crossTerm_approx:
  assumes fm: "floatModel F"
    and qa: "approx (1 / 2 ^ 43) 1 qa qa0" and qb: "approx (1 / 2 ^ 43) 1 qb qb0"
    and va: "\<bar>va\<bar> \<le> 2 ^ 20" and vb: "\<bar>vb\<bar> \<le> 2 ^ 20"
  shows "approx (1 / 2 ^ 18) (2 ^ 22) (rnd F (2 * rnd F (rnd F (qa * vb) - rnd F (qb * va))))
           (2 * (qa0 * vb - qb0 * va))"
proof -
  note xa = approx_exact [OF va] and xb = approx_exact [OF vb]
  have p1: "approx (1 / 2 ^ 22) (2 ^ 20) (rnd F (qa * vb)) (qa0 * vb)"
    by (rule approx_rnd [OF fm approx_mul [OF qa xb]]) simp_all
  have p2: "approx (1 / 2 ^ 22) (2 ^ 20) (rnd F (qb * va)) (qb0 * va)"
    by (rule approx_rnd [OF fm approx_mul [OF qb xa]]) simp_all
  have d: "approx (1 / 2 ^ 20) (2 ^ 21) (rnd F (rnd F (qa * vb) - rnd F (qb * va)))
      (qa0 * vb - qb0 * va)"
    by (rule approx_rnd [OF fm approx_sub [OF p1 p2]]) simp_all
  have two: "approx 0 2 2 2"
    by (simp add: approx_def)
  show ?thesis
    by (rule approx_rnd [OF fm approx_mul [OF two d]]) simp_all
qed

lemma coord_approx:
  assumes fm: "floatModel F"
    and v: "\<bar>v\<bar> \<le> 2 ^ 20"
    and qw: "approx (1 / 2 ^ 43) 1 qw qw0"
    and qa: "approx (1 / 2 ^ 43) 1 qa qa0" and qb: "approx (1 / 2 ^ 43) 1 qb qb0"
    and t1: "approx (1 / 2 ^ 18) (2 ^ 22) t1 t10"
    and t2: "approx (1 / 2 ^ 18) (2 ^ 22) t2 t20"
    and t3: "approx (1 / 2 ^ 18) (2 ^ 22) t3 t30"
  shows "approx (1 / 2 ^ 14) (2 ^ 25)
           (rnd F (rnd F (rnd F (v + rnd F (qw * t1)) + rnd F (qa * t2)) - rnd F (qb * t3)))
           (v + qw0 * t10 + qa0 * t20 - qb0 * t30)"
proof -
  note xv = approx_exact [OF v]
  have m1: "approx (1 / 2 ^ 17) (2 ^ 22) (rnd F (qw * t1)) (qw0 * t10)"
    by (rule approx_rnd [OF fm approx_mul [OF qw t1]]) simp_all
  have m2: "approx (1 / 2 ^ 17) (2 ^ 22) (rnd F (qa * t2)) (qa0 * t20)"
    by (rule approx_rnd [OF fm approx_mul [OF qa t2]]) simp_all
  have m3: "approx (1 / 2 ^ 17) (2 ^ 22) (rnd F (qb * t3)) (qb0 * t30)"
    by (rule approx_rnd [OF fm approx_mul [OF qb t3]]) simp_all
  have a1: "approx (1 / 2 ^ 16) (2 ^ 23) (rnd F (v + rnd F (qw * t1))) (v + qw0 * t10)"
    by (rule approx_rnd [OF fm approx_add [OF xv m1]]) simp_all
  have a2: "approx (1 / 2 ^ 15) (2 ^ 24) (rnd F (rnd F (v + rnd F (qw * t1)) + rnd F (qa * t2)))
      (v + qw0 * t10 + qa0 * t20)"
    by (rule approx_rnd [OF fm approx_add [OF a1 m2]]) simp_all
  show ?thesis
    by (rule approx_rnd [OF fm approx_sub [OF a2 m3]]) simp_all
qed

lemma sqrt_near_one:
  assumes "0 \<le> x"
  shows "\<bar>sqrt x - 1\<bar> \<le> \<bar>x - 1\<bar>"
proof -
  have "x - 1 = (sqrt x - 1) * (sqrt x + 1)"
    using assms by (simp add: algebra_simps)
  then have "\<bar>x - 1\<bar> = \<bar>sqrt x - 1\<bar> * (sqrt x + 1)"
    using assms by (simp add: abs_mult)
  moreover have "\<bar>sqrt x - 1\<bar> * 1 \<le> \<bar>sqrt x - 1\<bar> * (sqrt x + 1)"
    using assms by (intro mult_left_mono) simp_all
  ultimately show ?thesis
    by simp
qed

lemma normalizeFl_approx:
  assumes fm: "floatModel F"
    and a: "\<bar>ax\<bar> \<le> 1" "\<bar>ay\<bar> \<le> 1" "\<bar>az\<bar> \<le> 1" and unit: "ax * ax + ay * ay + az * az = 1"
    and n: "normalizeFl F (ax, ay, az) = (nx, ny, nz)"
  shows "approx (1 / 2 ^ 44) 1 nx (ax * 1)" and "approx (1 / 2 ^ 44) 1 ny (ay * 1)"
    and "approx (1 / 2 ^ 44) 1 nz (az * 1)"
proof -
  note xa = approx_exact [OF a(1)] and ya = approx_exact [OF a(2)] and za = approx_exact [OF a(3)]
  define L where "L = rnd F (rnd F (rnd F (ax * ax) + rnd F (ay * ay)) + rnd F (az * az))"
  define l where "l = rnd F (sqrt L)"
  define k where "k = rnd F (1 / l)"
  have x2: "approx (1 / 2 ^ 51) 1 (rnd F (ax * ax)) (ax * ax)"
    by (rule approx_rnd [OF fm approx_mul [OF xa xa]]) simp_all
  have y2: "approx (1 / 2 ^ 51) 1 (rnd F (ay * ay)) (ay * ay)"
    by (rule approx_rnd [OF fm approx_mul [OF ya ya]]) simp_all
  have z2: "approx (1 / 2 ^ 51) 1 (rnd F (az * az)) (az * az)"
    by (rule approx_rnd [OF fm approx_mul [OF za za]]) simp_all
  have s1: "approx (1 / 2 ^ 49) 2 (rnd F (rnd F (ax * ax) + rnd F (ay * ay))) (ax * ax + ay * ay)"
    by (rule approx_rnd [OF fm approx_add [OF x2 y2]]) simp_all
  have "approx (1 / 2 ^ 48) 3 L (ax * ax + ay * ay + az * az)"
    unfolding L_def by (rule approx_rnd [OF fm approx_add [OF s1 z2]]) simp_all
  then have L: "\<bar>L - 1\<bar> \<le> 1 / 2 ^ 48"
    by (simp add: approx_def unit)
  moreover have "(1 :: real) / 2 ^ 48 \<le> 1"
    by simp
  ultimately have "0 \<le> L"
    by arith
  from sqrt_near_one [OF this] L have "approx (1 / 2 ^ 48) 1 (sqrt L) 1"
    by (simp add: approx_def)
  then have "approx (1 / 2 ^ 47) 1 l 1"
    unfolding l_def by (rule approx_rnd [OF fm]) simp_all
  then have l: "\<bar>l - 1\<bar> \<le> 1 / 2 ^ 47"
    by (simp add: approx_def)
  moreover have "(1 :: real) / 2 ^ 47 \<le> 1 / 2"
    by simp
  ultimately have lpos: "1 / 2 \<le> l"
    by arith
  have "\<bar>1 / l - 1\<bar> = \<bar>1 - l\<bar> / l"
    using lpos by (simp add: field_simps abs_if)
  also have "\<dots> \<le> \<bar>1 - l\<bar> / (1 / 2)"
    using lpos by (intro divide_left_mono) simp_all
  also have "\<dots> \<le> 1 / 2 ^ 46"
    using l by (simp add: abs_minus_commute)
  finally have "approx (1 / 2 ^ 46) 1 (1 / l) 1"
    by (simp add: approx_def)
  then have k: "approx (1 / 2 ^ 45) 1 k 1"
    unfolding k_def by (rule approx_rnd [OF fm]) simp_all
  have l0: "l \<noteq> 0"
    using lpos by simp
  have "normalizeFl F (ax, ay, az) = (rnd F (ax * k), rnd F (ay * k), rnd F (az * k))"
    using l0 by (simp add: normalizeFl_def vlengthFl_def Let_def k_def l_def L_def)
  with n have nx: "nx = rnd F (ax * k)" and ny: "ny = rnd F (ay * k)" and nz: "nz = rnd F (az * k)"
    by simp_all
  show "approx (1 / 2 ^ 44) 1 nx (ax * 1)"
    unfolding nx by (rule approx_rnd [OF fm approx_mul [OF xa k]]) simp_all
  show "approx (1 / 2 ^ 44) 1 ny (ay * 1)"
    unfolding ny by (rule approx_rnd [OF fm approx_mul [OF ya k]]) simp_all
  show "approx (1 / 2 ^ 44) 1 nz (az * 1)"
    unfolding nz by (rule approx_rnd [OF fm approx_mul [OF za k]]) simp_all
qed

lemma quarterTurnFl_approx:
  assumes fm: "floatModel F"
    and a: "\<bar>ax\<bar> \<le> 1" "\<bar>ay\<bar> \<le> 1" "\<bar>az\<bar> \<le> 1" and unit: "ax * ax + ay * ay + az * az = 1"
    and q: "quarterTurnFl F (normalizeFl F (ax, ay, az)) = (qx, qy, qz, qw)"
  shows "approx (1 / 2 ^ 43) 1 qx (ax * sin (pi / 4))"
    and "approx (1 / 2 ^ 43) 1 qy (ay * sin (pi / 4))"
    and "approx (1 / 2 ^ 43) 1 qz (az * sin (pi / 4))"
    and "approx (1 / 2 ^ 43) 1 qw (cos (pi / 4))"
proof -
  obtain nx ny nz where n: "normalizeFl F (ax, ay, az) = (nx, ny, nz)"
    by (cases "normalizeFl F (ax, ay, az)")
  note na = normalizeFl_approx [OF fm a unit n]
  have s: "approx (1 / 2 ^ 50) 1 (sinHalf F) (sin (pi / 4))"
    using fm by (simp add: floatModel_def approx_def)
  from q have qx: "qx = rnd F (nx * sinHalf F)" and qy: "qy = rnd F (ny * sinHalf F)"
    and qz: "qz = rnd F (nz * sinHalf F)" and qw: "qw = cosHalf F"
    by (simp_all add: n quarterTurnFl_def)
  have "approx (1 / 2 ^ 43) (1 * 1) qx (ax * 1 * sin (pi / 4))"
    unfolding qx by (rule approx_rnd [OF fm approx_mul [OF na(1) s]]) simp_all
  then show "approx (1 / 2 ^ 43) 1 qx (ax * sin (pi / 4))"
    by simp
  have "approx (1 / 2 ^ 43) (1 * 1) qy (ay * 1 * sin (pi / 4))"
    unfolding qy by (rule approx_rnd [OF fm approx_mul [OF na(2) s]]) simp_all
  then show "approx (1 / 2 ^ 43) 1 qy (ay * sin (pi / 4))"
    by simp
  have "approx (1 / 2 ^ 43) (1 * 1) qz (az * 1 * sin (pi / 4))"
    unfolding qz by (rule approx_rnd [OF fm approx_mul [OF na(3) s]]) simp_all
  then show "approx (1 / 2 ^ 43) 1 qz (az * sin (pi / 4))"
    by simp
  show "approx (1 / 2 ^ 43) 1 qw (cos (pi / 4))"
    unfolding qw using fm by (simp add: floatModel_def approx_def)
qed

lemma js_round_near:
  assumes "\<bar>x - of_int k\<bar> < 1 / 2"
  shows "js_round x = k"
  unfolding js_round_def
proof (rule floor_unique)
  show "of_int k \<le> x + 1 / 2"
    using assms by arith
  show "x + 1 / 2 < of_int k + 1"
    using assms by arith
qed

lemma cardinal_unit:
  assumes "(ax, ay, az) \<in> set cardinals"
  shows "\<bar>ax\<bar> \<le> 1" "\<bar>ay\<bar> \<le> 1" "\<bar>az\<bar> \<le> 1" "ax * ax + ay * ay + az * az = 1"
  using assms by (auto simp: cardinals_def)

lemma rotateCellFl_exact:
  assumes fm: "floatModel F" and card: "a \<in> set cardinals" and small: "smallCell c"
  shows "rotateCellFl F a c = rotateCell (quarterTurn a) c"
proof -
  obtain ax ay az where a: "a = (ax, ay, az)" by (cases a)
  obtain cx cy cz where c: "c = (cx, cy, cz)" by (cases c)
  obtain rx ry rz where r: "rotateCell (quarterTurn a) c = (rx, ry, rz)"
    by (cases "rotateCell (quarterTurn a) c")
  obtain qx qy qz qw where q: "quarterTurnFl F (normalizeFl F (ax, ay, az)) = (qx, qy, qz, qw)"
    by (cases "quarterTurnFl F (normalizeFl F (ax, ay, az))") auto
  define s0 where "s0 = sin (pi / 4)"
  define c0 where "c0 = cos (pi / 4)"
  define vx vy vz :: real where "vx = of_int cx" and "vy = of_int cy" and "vz = of_int cz"
  note u = cardinal_unit [OF card [unfolded a]]
  note qa = quarterTurnFl_approx [OF fm u q, folded s0_def c0_def]
  have v: "\<bar>vx\<bar> \<le> 2 ^ 20" "\<bar>vy\<bar> \<le> 2 ^ 20" "\<bar>vz\<bar> \<le> 2 ^ 20"
    using small unfolding c smallCell_def vx_def vy_def vz_def
    by (simp_all add: of_int_abs [symmetric] of_int_le_numeral_power_cancel_iff del: of_int_abs)
  define tx where "tx = rnd F (2 * rnd F (rnd F (qy * vz) - rnd F (qz * vy)))"
  define ty where "ty = rnd F (2 * rnd F (rnd F (qz * vx) - rnd F (qx * vz)))"
  define tz where "tz = rnd F (2 * rnd F (rnd F (qx * vy) - rnd F (qy * vx)))"
  have tx: "approx (1 / 2 ^ 18) (2 ^ 22) tx (2 * (ay * s0 * vz - az * s0 * vy))"
    unfolding tx_def by (rule crossTerm_approx [OF fm qa(2) qa(3) v(2) v(3)])
  have ty: "approx (1 / 2 ^ 18) (2 ^ 22) ty (2 * (az * s0 * vx - ax * s0 * vz))"
    unfolding ty_def by (rule crossTerm_approx [OF fm qa(3) qa(1) v(3) v(1)])
  have tz: "approx (1 / 2 ^ 18) (2 ^ 22) tz (2 * (ax * s0 * vy - ay * s0 * vx))"
    unfolding tz_def by (rule crossTerm_approx [OF fm qa(1) qa(2) v(1) v(2)])
  define X where "X = rnd F (rnd F (rnd F (vx + rnd F (qw * tx)) + rnd F (qy * tz)) - rnd F (qz * ty))"
  define Y where "Y = rnd F (rnd F (rnd F (vy + rnd F (qw * ty)) + rnd F (qz * tx)) - rnd F (qx * tz))"
  define Z where "Z = rnd F (rnd F (rnd F (vz + rnd F (qw * tz)) + rnd F (qx * ty)) - rnd F (qy * tx))"
  have fl: "applyQuaternionFl F (qx, qy, qz, qw) (vx, vy, vz) = (X, Y, Z)"
    by (simp add: applyQuaternionFl_def Let_def X_def Y_def Z_def tx_def ty_def tz_def)
  have X: "approx (1 / 2 ^ 14) (2 ^ 25) X
      (vx + c0 * (2 * (ay * s0 * vz - az * s0 * vy)) + ay * s0 * (2 * (ax * s0 * vy - ay * s0 * vx))
         - az * s0 * (2 * (az * s0 * vx - ax * s0 * vz)))"
    unfolding X_def by (rule coord_approx [OF fm v(1) qa(4) qa(2) qa(3) tx tz ty])
  have Y: "approx (1 / 2 ^ 14) (2 ^ 25) Y
      (vy + c0 * (2 * (az * s0 * vx - ax * s0 * vz)) + az * s0 * (2 * (ay * s0 * vz - az * s0 * vy))
         - ax * s0 * (2 * (ax * s0 * vy - ay * s0 * vx)))"
    unfolding Y_def by (rule coord_approx [OF fm v(2) qa(4) qa(3) qa(1) ty tx tz])
  have Z: "approx (1 / 2 ^ 14) (2 ^ 25) Z
      (vz + c0 * (2 * (ax * s0 * vy - ay * s0 * vx)) + ax * s0 * (2 * (az * s0 * vx - ax * s0 * vz))
         - ay * s0 * (2 * (ay * s0 * vz - az * s0 * vy)))"
    unfolding Z_def by (rule coord_approx [OF fm v(3) qa(4) qa(1) qa(2) tz ty tx])
  have "applyQuaternion (quarterTurn (ax, ay, az)) (vx, vy, vz) = (of_int rx, of_int ry, of_int rz)"
    using rotateCell_exact [OF card, of c] r
    by (simp add: a c vec_of_cell_def vx_def vy_def vz_def)
  then have ex:
    "vx + c0 * (2 * (ay * s0 * vz - az * s0 * vy)) + ay * s0 * (2 * (ax * s0 * vy - ay * s0 * vx))
         - az * s0 * (2 * (az * s0 * vx - ax * s0 * vz)) = of_int rx"
    "vy + c0 * (2 * (az * s0 * vx - ax * s0 * vz)) + az * s0 * (2 * (ay * s0 * vz - az * s0 * vy))
         - ax * s0 * (2 * (ax * s0 * vy - ay * s0 * vx)) = of_int ry"
    "vz + c0 * (2 * (ax * s0 * vy - ay * s0 * vx)) + ax * s0 * (2 * (az * s0 * vx - ax * s0 * vz))
         - ay * s0 * (2 * (ay * s0 * vz - az * s0 * vy)) = of_int rz"
    by (simp_all add: quarterTurn_apply Let_def s0_def c0_def)
  have "js_round X = rx" "js_round Y = ry" "js_round Z = rz"
    using X Y Z unfolding ex approx_def by (auto intro!: js_round_near)
  then show ?thesis
    by (simp add: rotateCellFl_def a c q vec_of_cell_def fl [unfolded vx_def vy_def vz_def]
        vround_def r [unfolded a c])
qed

lemma vec_of_cell_inj: "vec_of_cell c = vec_of_cell d \<Longrightarrow> c = d"
  by (cases c, cases d) (simp add: vec_of_cell_def)

lemma rotateCellFl_four:
  assumes fm: "floatModel F" and card: "a \<in> set cardinals" and small: "smallCell c"
  shows "rotateCellFl F a (rotateCellFl F a (rotateCellFl F a (rotateCellFl F a c))) = c"
proof -
  let ?r = "rotateCell (quarterTurn a)"
  have s1: "smallCell (?r c)"
    by (rule smallCell_rotateCell [OF card small])
  have s2: "smallCell (?r (?r c))"
    by (rule smallCell_rotateCell [OF card s1])
  have s3: "smallCell (?r (?r (?r c)))"
    by (rule smallCell_rotateCell [OF card s2])
  show ?thesis
    by (simp add: rotateCellFl_exact [OF fm card] small s1 s2 s3 rotateCell_four [OF card])
qed

lemma sqrt2_bounds:
  "14142135623730950 / 10 ^ 16 \<le> sqrt 2" "sqrt 2 \<le> 14142135623730951 / 10 ^ 16"
proof -
  show "14142135623730950 / 10 ^ 16 \<le> sqrt 2"
    by (rule real_le_rsqrt) (simp add: power2_eq_square)
  show "sqrt 2 \<le> 14142135623730951 / 10 ^ 16"
    by (rule real_le_lsqrt) (simp_all add: power2_eq_square)
qed

lemma floatModel_doubles: "floatModel doubles"
proof -
  have "\<bar>6369051672525772 / 2 ^ 53 - sqrt 2 / 2\<bar> \<le> 1 / 2 ^ 50"
    using sqrt2_bounds by (simp add: abs_le_iff)
  moreover have "\<bar>6369051672525773 / 2 ^ 53 - sqrt 2 / 2\<bar> \<le> 1 / 2 ^ 50"
    using sqrt2_bounds by (simp add: abs_le_iff)
  ultimately show ?thesis
    by (simp add: floatModel_def doubles_def sin_45 cos_45)
qed

lemma floatModel_skewed: "floatModel skewed"
proof -
  have "\<bar>x * (1 + 1 / 2 ^ 53) - x\<bar> \<le> \<bar>x\<bar> / 2 ^ 52 + 1 / 2 ^ 60" for x :: real
  proof -
    have "x * (1 + 1 / 2 ^ 53) - x = x / 2 ^ 53"
      by (simp add: algebra_simps)
    then have "\<bar>x * (1 + 1 / 2 ^ 53) - x\<bar> = \<bar>x\<bar> / 2 ^ 53"
      by simp
    also have "\<dots> \<le> \<bar>x\<bar> / 2 ^ 52"
      by (intro divide_left_mono) simp_all
    finally show ?thesis
      by simp
  qed
  with floatModel_doubles show ?thesis
    by (simp add: floatModel_def skewed_def doubles_def)
qed

lemma doubles_raw:
  "applyQuaternionFl doubles (quarterTurnFl doubles (normalizeFl doubles (1, 0, 0))) (vec_of_cell (0, 1, 0))
     = (0, 1 - 2 * (6369051672525772 / 2 ^ 53) * (6369051672525772 / 2 ^ 53),
        2 * (6369051672525773 / 2 ^ 53) * (6369051672525772 / 2 ^ 53))"
  by (simp add: applyQuaternionFl_def quarterTurnFl_def normalizeFl_def vlengthFl_def doubles_def
      vec_of_cell_def Let_def)

text \<open>
  Claim C5. Let the arithmetic be double precision as assumed above and the axis
  cardinal. For every small cell offset, the offset \<^verbatim>\<open>rotateBlock\<close> computes in double
  precision and rounds is exactly the quarter turn of the offset, an integer triple, and
  is small again; four such rotations about the same axis give back the offset. Every
  cell offset of every block in every state a session reaches from the start is small, so
  that both hold of it. For a block at rest with small offsets, the pending cells of
  \<^verbatim>\<open>rotateBlock\<close> are the cells rotated in double precision and rounded, and four rotations
  about the axis, each carried through to the end of its animation, give back the cell
  list.
\<close>

theorem rotation_periodicity:
  assumes "floatModel F" and "axis \<in> set cardinals"
  shows "(\<forall>c. smallCell c \<longrightarrow>
            vec_of_cell (rotateCellFl F axis c) = applyQuaternion (quarterTurn axis) (vec_of_cell c)
            \<and> smallCell (rotateCellFl F axis c)
            \<and> rotateCellFl F axis (rotateCellFl F axis (rotateCellFl F axis (rotateCellFl F axis c))) = c)
       \<and> (\<forall>b\<in>set (blocks (run initialState es)). \<forall>c\<in>set (cells b).
            smallCell c
            \<and> vec_of_cell (rotateCellFl F axis c) = applyQuaternion (quarterTurn axis) (vec_of_cell c)
            \<and> rotateCellFl F axis (rotateCellFl F axis (rotateCellFl F axis (rotateCellFl F axis c))) = c)
       \<and> (\<forall>b. \<not> isAnimating b \<and> (\<forall>c\<in>set (cells b). smallCell c) \<longrightarrow>
            pendingCells (rotateBlock axis t1 b) = Some (map (rotateCellFl F axis) (cells b))
            \<and> cells (rotateAndSettle axis t4 (rotateAndSettle axis t3
                 (rotateAndSettle axis t2 (rotateAndSettle axis t1 b)))) = cells b)"
proof -
  let ?q = "quarterTurn (normalizeVec axis)"
  have n: "normalizeVec axis = axis"
    using assms(2) by (rule normalize_cardinal)
  have cell: "vec_of_cell (rotateCellFl F axis c) = applyQuaternion (quarterTurn axis) (vec_of_cell c)
      \<and> smallCell (rotateCellFl F axis c)
      \<and> rotateCellFl F axis (rotateCellFl F axis (rotateCellFl F axis (rotateCellFl F axis c))) = c"
    if small: "smallCell c" for c
  proof -
    have fl: "rotateCellFl F axis c = rotateCell (quarterTurn axis) c"
      by (rule rotateCellFl_exact [OF assms small])
    have "vec_of_cell (rotateCellFl F axis c) = applyQuaternion (quarterTurn axis) (vec_of_cell c)"
      unfolding fl by (rule rotateCell_exact [OF assms(2), symmetric])
    moreover have "smallCell (rotateCellFl F axis c)"
      unfolding fl by (rule smallCell_rotateCell [OF assms(2) small])
    moreover have "rotateCellFl F axis (rotateCellFl F axis (rotateCellFl F axis (rotateCellFl F axis c))) = c"
      by (rule rotateCellFl_four [OF assms small])
    ultimately show ?thesis
      by blast
  qed
  have reach: "smallCell c
      \<and> vec_of_cell (rotateCellFl F axis c) = applyQuaternion (quarterTurn axis) (vec_of_cell c)
      \<and> rotateCellFl F axis (rotateCellFl F axis (rotateCellFl F axis (rotateCellFl F axis c))) = c"
    if "b \<in> set (blocks (run initialState es))" "c \<in> set (cells b)" for b c
  proof -
    from reachable_cells_small [of es] that have "smallCell c"
      by blast
    with cell [OF this] show ?thesis
      by blast
  qed
  have blk: "pendingCells (rotateBlock axis t1 b) = Some (map (rotateCellFl F axis) (cells b))
      \<and> cells (rotateAndSettle axis t4 (rotateAndSettle axis t3
           (rotateAndSettle axis t2 (rotateAndSettle axis t1 b)))) = cells b"
    if b: "\<not> isAnimating b \<and> (\<forall>c\<in>set (cells b). smallCell c)" for b :: block
  proof -
    have four: "rotateCell ?q \<circ> (rotateCell ?q \<circ> (rotateCell ?q \<circ> rotateCell ?q)) = id"
      using rotateCell_four [OF assms(2)] by (auto simp: n)
    have "map (rotateCellFl F axis) (cells b) = map (rotateCell ?q) (cells b)"
      using b by (simp add: n rotateCellFl_exact [OF assms])
    with b have "pendingCells (rotateBlock axis t1 b) = Some (map (rotateCellFl F axis) (cells b))"
      by (simp add: rotateBlock_def Let_def)
    moreover from b have "cells (rotateAndSettle axis t4 (rotateAndSettle axis t3
                 (rotateAndSettle axis t2 (rotateAndSettle axis t1 b)))) = cells b"
      by (simp add: rotateAndSettle_cells four)
    ultimately show ?thesis
      by blast
  qed
  from cell reach blk show ?thesis
    by blast
qed

text \<open>
  At the doubles nearest to the sine and cosine of \<open>\<pi>/4\<close>, the turn of the catalog offset
  \<open>(0, 1, 0)\<close> about x is \<open>(0, 1 - 2 s s, 2 c s)\<close> before rounding: the second coordinate is
  above zero and the third is below one, and rounding gives \<open>(0, 0, 1)\<close>. The arithmetic
  that errs in every operation gives the same offset.
\<close>

theorem rotation_periodicity_witness:
  "floatModel doubles \<and> (1, 0, 0) \<in> set cardinals \<and> smallCell (0, 1, 0)
   \<and> 0 < fst (snd (applyQuaternionFl doubles (quarterTurnFl doubles (normalizeFl doubles (1, 0, 0)))
                     (vec_of_cell (0, 1, 0))))
   \<and> snd (snd (applyQuaternionFl doubles (quarterTurnFl doubles (normalizeFl doubles (1, 0, 0)))
                 (vec_of_cell (0, 1, 0)))) < 1
   \<and> rotateCellFl doubles (1, 0, 0) (0, 1, 0) = (0, 0, 1)
   \<and> floatModel skewed \<and> rotateCellFl skewed (1, 0, 0) (0, 1, 0) = (0, 0, 1)
   \<and> blocks initialState ! 4 \<in> set (blocks (run initialState []))
   \<and> (0, 1, 0) \<in> set (cells (blocks initialState ! 4))
   \<and> rotateCellFl doubles (1, 0, 0) (rotateCellFl doubles (1, 0, 0)
        (rotateCellFl doubles (1, 0, 0) (rotateCellFl doubles (1, 0, 0) (0, 1, 0)))) = (0, 1, 0)
   \<and> \<not> isAnimating (newBlock (4, [(0, 0, 0), (-1, 0, 0), (0, 0, 1), (0, 1, 0)]))
   \<and> list_all smallCell (cells (newBlock (4, [(0, 0, 0), (-1, 0, 0), (0, 0, 1), (0, 1, 0)])))
   \<and> pendingCells (rotateBlock (1, 0, 0) 0 (newBlock (4, [(0, 0, 0), (-1, 0, 0), (0, 0, 1), (0, 1, 0)])))
        = Some (map (rotateCellFl doubles (1, 0, 0)) [(0, 0, 0), (-1, 0, 0), (0, 0, 1), (0, 1, 0)])
   \<and> map (rotateCellFl doubles (1, 0, 0)) [(0, 0, 0), (-1, 0, 0), (0, 0, 1), (0, 1, 0)]
        = [(0, 0, 0), (-1, 0, 0), (0, -1, 0), (0, 0, 1)]
   \<and> cells (rotateAndSettle (1, 0, 0) 900 (rotateAndSettle (1, 0, 0) 600
        (rotateAndSettle (1, 0, 0) 300 (rotateAndSettle (1, 0, 0) 0
          (newBlock (4, [(0, 0, 0), (-1, 0, 0), (0, 0, 1), (0, 1, 0)]))))))
       = [(0, 0, 0), (-1, 0, 0), (0, 0, 1), (0, 1, 0)]"
proof -
  let ?b = "newBlock (4, [(0, 0, 0), (-1, 0, 0), (0, 0, 1), (0, 1, 0)])"
  have card: "(1, 0, 0) \<in> set cardinals"
    by (simp add: cardinals_def)
  have rest: "\<not> isAnimating ?b"
    by (simp add: newBlock_def)
  have cs: "cells ?b = [(0, 0, 0), (-1, 0, 0), (0, 0, 1), (0, 1, 0)]"
    by (simp add: newBlock_def)
  have small: "smallCell (0, 0, 0)" "smallCell (-1, 0, 0)" "smallCell (0, 0, 1)" "smallCell (0, 1, 0)"
    by (simp_all add: smallCell_def)
  note t = rotation_periodicity [OF floatModel_doubles card, of "[]" 0 900 600 300]
  from t have cell: "smallCell c \<Longrightarrow>
      vec_of_cell (rotateCellFl doubles (1, 0, 0) c)
        = applyQuaternion (quarterTurn (1, 0, 0)) (vec_of_cell c)
      \<and> rotateCellFl doubles (1, 0, 0) (rotateCellFl doubles (1, 0, 0)
           (rotateCellFl doubles (1, 0, 0) (rotateCellFl doubles (1, 0, 0) c))) = c" for c
    by blast
  have turn: "rotateCellFl doubles (1, 0, 0) (x, y, z) = (x, - z, y)" if "smallCell (x, y, z)" for x y z
  proof -
    from cell [OF that]
    have "vec_of_cell (rotateCellFl doubles (1, 0, 0) (x, y, z)) = vec_of_cell (x, - z, y)"
      by (simp add: quarterTurn_cardinal vec_of_cell_def)
    then show ?thesis
      by (rule vec_of_cell_inj)
  qed
  from t rest small have blk: "pendingCells (rotateBlock (1, 0, 0) 0 ?b)
        = Some (map (rotateCellFl doubles (1, 0, 0)) (cells ?b))
      \<and> cells (rotateAndSettle (1, 0, 0) 900 (rotateAndSettle (1, 0, 0) 600
           (rotateAndSettle (1, 0, 0) 300 (rotateAndSettle (1, 0, 0) 0 ?b)))) = cells ?b"
    by (simp add: cs)
  have raw: "0 < fst (snd (applyQuaternionFl doubles (quarterTurnFl doubles (normalizeFl doubles (1, 0, 0)))
                     (vec_of_cell (0, 1, 0))))"
    "snd (snd (applyQuaternionFl doubles (quarterTurnFl doubles (normalizeFl doubles (1, 0, 0)))
                 (vec_of_cell (0, 1, 0)))) < 1"
    by (simp_all add: doubles_raw)
  from rotation_periodicity [OF floatModel_skewed card, of "[]" 0 900 600 300] small(4)
  have "vec_of_cell (rotateCellFl skewed (1, 0, 0) (0, 1, 0)) = vec_of_cell (0, 0, 1)"
    by (simp add: quarterTurn_cardinal vec_of_cell_def)
  then have sk: "rotateCellFl skewed (1, 0, 0) (0, 1, 0) = (0, 0, 1)"
    by (rule vec_of_cell_inj)
  have start: "blocks initialState ! 4 \<in> set (blocks (run initialState []))"
    "(0, 1, 0) \<in> set (cells (blocks initialState ! 4))"
    by (simp_all add: engine_defs block_defs)
  from floatModel_doubles floatModel_skewed card small raw rest blk cell [OF small(4)] sk start
  show ?thesis
    by (simp add: cs turn small)
qed

end
